theory Spec2Isabelle
  imports Main
begin

section \<open>jsonmon: the check scheduler and the status cache\<close>

text \<open>
  A shallow embedding of \<^verbatim>\<open>main.go\<close>. Every call that leaves the process (running a
  command, an HTTP round trip, reading the clock) is answered by an oracle of the
  environment record \<open>env\<close>, indexed by the number of such calls made so far, and is
  written to a trace of observable events. The mutex only delimits critical sections
  and has no counterpart here: each function below is one uninterrupted run of one
  goroutine.
\<close>

subsection \<open>Data model\<close>

text \<open>The struct \<^verbatim>\<open>Check\<close>. Go's \<^verbatim>\<open>int\<close> fields are read as mathematical integers.\<close>

record Check =
  Name :: string
  Web :: string
  Shell :: string
  Match :: string
  Return :: int
  Notify :: string
  Alert :: string
  Tries :: int
  Repeat :: int
  Sleep :: int
  Failed :: bool
  Since :: string

text \<open>An outgoing or incoming HTTP request: the URL and the header map (canonical keys).\<close>

type_synonym Header = "(string \<times> string list) list"

record Request =
  URL :: string
  Header :: Header

text \<open>What one HTTP round trip gives back, as far as \<^verbatim>\<open>Client.Do\<close> and \<^verbatim>\<open>fetch\<close> look at it.\<close>

datatype round_trip =
  Response int string
  | Redirect string
  | Transport_error string

text \<open>Observable effects, in the order they happen.\<close>

datatype event =
  Ev_Exec string "string list"
  | Ev_RoundTrip Request
  | Ev_Sleep int
  | Ev_Now
  | Ev_Stdout string
  | Ev_Stderr string
  | Ev_Start string "string list"
  | Ev_Stdin string

text \<open>
  The outside world. \<open>CombinedOutput\<close> answers \<^verbatim>\<open>exec.Command(name, args...).CombinedOutput()\<close>
  with the captured output and the error text, if any; \<open>RoundTrip\<close> answers one HTTP
  exchange; \<open>UnixNano\<close> is the clock; \<open>RFC3339\<close> renders a time in the local zone;
  \<open>regexp_Compile\<close> gives the compilation error of a pattern, if any, and
  \<open>regexp_Match\<close> says whether a compiled pattern matches; \<open>NewRequest\<close> gives the
  error of \<^verbatim>\<open>http.NewRequest\<close>, if any; \<open>Start\<close> that of \<^verbatim>\<open>Cmd.Start\<close>.
  \<open>short_escapes\<close> says whether the program was built with Go 1.22 or later, whose
  encoding/json writes backspace and form feed in their short forms.
\<close>

record env =
  CombinedOutput :: "nat \<Rightarrow> string \<Rightarrow> string list \<Rightarrow> string \<times> string option"
  RoundTrip :: "nat \<Rightarrow> Request \<Rightarrow> round_trip"
  UnixNano :: "nat \<Rightarrow> int"
  RFC3339 :: "int \<Rightarrow> string"
  regexp_Compile :: "string \<Rightarrow> string option"
  regexp_Match :: "string \<Rightarrow> string \<Rightarrow> bool"
  NewRequest :: "string \<Rightarrow> string option"
  Start :: "nat \<Rightarrow> string \<Rightarrow> string list \<Rightarrow> string option"
  short_escapes :: bool

text \<open>
  The globals \<^verbatim>\<open>checks\<close>, \<^verbatim>\<open>modified\<close> and \<^verbatim>\<open>started\<close>, with the call counter and the
  trace. \<open>checks_nil\<close> says whether the slice \<^verbatim>\<open>checks\<close> is nil, as it is declared and
  as a configuration file without a document leaves it; the list is then empty.
\<close>

record state =
  checks :: "Check list"
  checks_nil :: bool
  modified :: string
  started :: string
  clock :: nat
  trace :: "event list"

subsection \<open>Calls to the outside\<close>

definition emit :: "event \<Rightarrow> state \<Rightarrow> state" where
  "emit ev s = s\<lparr>clock := Suc (clock s), trace := trace s @ [ev]\<rparr>"

definition exec_CombinedOutput ::
  "env \<Rightarrow> string \<Rightarrow> string list \<Rightarrow> state \<Rightarrow> string \<times> string option \<times> state" where
  "exec_CombinedOutput e name args s =
     (case CombinedOutput e (clock s) name args of
        (out, err) \<Rightarrow> (out, err, emit (Ev_Exec name args) s))"

definition time_Sleep :: "int \<Rightarrow> state \<Rightarrow> state" where
  "time_Sleep d s = emit (Ev_Sleep d) s"

definition time_Now :: "env \<Rightarrow> state \<Rightarrow> int \<times> state" where
  "time_Now e s = (UnixNano e (clock s), emit Ev_Now s)"

definition Print :: "string \<Rightarrow> state \<Rightarrow> state" where
  "Print text s = emit (Ev_Stdout text) s"

definition Fprint_Stderr :: "string \<Rightarrow> state \<Rightarrow> state" where
  "Fprint_Stderr text s = emit (Ev_Stderr text) s"

text \<open>\<^verbatim>\<open>time.Second * time.Duration(n)\<close>: a product of 64-bit integers, in nanoseconds.\<close>

definition seconds :: "int \<Rightarrow> int" where
  "seconds n = signed_take_bit 63 (1000000000 * n)"

subsection \<open>Formatting\<close>

fun digits :: "nat \<Rightarrow> string" where
  "digits n =
     (if n < 10 then [''0123456789'' ! n]
      else digits (n div 10) @ [''0123456789'' ! (n mod 10)])"

declare digits.simps [simp del]

definition FormatInt :: "int \<Rightarrow> string" where
  "FormatInt i = (if i < 0 then ''-'' @ digits (nat (- i)) else digits (nat i))"

definition Itoa :: "int \<Rightarrow> string" where
  "Itoa i = FormatInt i"

definition FormatBool :: "bool \<Rightarrow> string" where
  "FormatBool b = (if b then ''true'' else ''false'')"

definition etag :: "int \<Rightarrow> string" where
  \<open>etag ts = ''W/"'' @ FormatInt ts @ ''"''\<close>

subsection \<open>Notifications\<close>

text \<open>\<^verbatim>\<open>log\<close>: the status change on standard output.\<close>

definition log :: "string \<Rightarrow> string option \<Rightarrow> state \<Rightarrow> state" where
  "log subject message s =
     (case message of
        None \<Rightarrow> Print (''<5>'' @ subject @ ''\<newline>'') s
      | Some m \<Rightarrow> Print (''<5>'' @ subject @ ''\<newline>'' @ m @ ''\<newline>'') s)"

text \<open>\<^verbatim>\<open>notify\<close>: the mail handed to sendmail.\<close>

definition notify :: "env \<Rightarrow> Check \<Rightarrow> string \<Rightarrow> string option \<Rightarrow> state \<Rightarrow> state" where
  "notify e check subject message s =
     (let msg = ''To: '' @ Notify check @ ''\<newline>Subject: '' @ subject
                @ ''\<newline>X-Mailer: jsonmon\<newline>\<newline>''
                @ (case message of None \<Rightarrow> [] | Some m \<Rightarrow> m)
                @ ''\<newline>.\<newline>'';
          err = Start e (clock s) ''/usr/sbin/sendmail'' [''-t''];
          s1 = emit (Ev_Start ''/usr/sbin/sendmail'' [''-t'']) s;
          s2 = (case err of None \<Rightarrow> s1 | Some er \<Rightarrow> Fprint_Stderr (''<3>'' @ er @ ''\<newline>'') s1)
      in emit (Ev_Stdin msg) s2)"

text \<open>\<^verbatim>\<open>alert\<close>: the callback, with the arguments true/false, the name and the message.\<close>

definition alert :: "env \<Rightarrow> Check \<Rightarrow> string \<Rightarrow> string option \<Rightarrow> bool \<Rightarrow> state \<Rightarrow> state" where
  "alert e check name msg failed s =
     (case (case msg of
              Some m \<Rightarrow> exec_CombinedOutput e (Alert check) [FormatBool failed, name, m] s
            | None \<Rightarrow> exec_CombinedOutput e (Alert check) [FormatBool failed, name] s) of
        (out, err, s1) \<Rightarrow>
          (case err of
             Some er \<Rightarrow>
               Fprint_Stderr (''<3>'' @ Alert check @ '' failed\<newline>'' @ out @ er @ ''\<newline>'') s1
           | None \<Rightarrow> s1))"

subsection \<open>The shell worker\<close>

text \<open>
  The attempts loop of \<^verbatim>\<open>shell\<close>, from counter \<open>i\<close> with the current values of
  \<^verbatim>\<open>out\<close> and \<^verbatim>\<open>err\<close>; it returns their final values.
\<close>

function shell_attempts ::
  "env \<Rightarrow> Check \<Rightarrow> int \<Rightarrow> int \<Rightarrow> string \<Rightarrow> string option \<Rightarrow> state
     \<Rightarrow> string \<times> string option \<times> state" where
  "shell_attempts e check sleep i out err s =
     (if i < Tries check then
        (case exec_CombinedOutput e ''sh'' [''-c'', Shell check] s of
           (out1, err1, s1) \<Rightarrow>
             (case err1 of
                None \<Rightarrow>
                  (if Match check \<noteq> [] then
                     (case regexp_Compile e (Match check) of
                        Some cerr \<Rightarrow> (out1, Some cerr, s1)
                      | None \<Rightarrow>
                          (if \<not> regexp_Match e (Match check) out1
                           then (out1,
                                 Some (''Expected:\<newline>'' @ Match check
                                       @ ''\<newline>\<newline>Got:\<newline>'' @ out1), s1)
                           else (out1, None, s1)))
                   else (out1, None, s1))
              | Some _ \<Rightarrow>
                  shell_attempts e check sleep (i + 1) out1 err1
                    (if i + 1 < Tries check then time_Sleep sleep s1 else s1)))
      else (out, err, s))"
  by pat_completeness auto
termination
  by (relation "measure (\<lambda>(e, check, sleep, i, out, err, s). nat (Tries check - i))") auto

declare shell_attempts.simps [simp del]

text \<open>\<^verbatim>\<open>shell\<close>: one polling cycle of the check at index \<open>i\<close>.\<close>

definition shell :: "env \<Rightarrow> nat \<Rightarrow> string \<Rightarrow> int \<Rightarrow> state \<Rightarrow> state" where
  "shell e i name sleep s =
     (case shell_attempts e (checks s ! i) sleep 0 [] None s of
        (out, err, s1) \<Rightarrow>
          (let check = checks s1 ! i in
           case err of
             None \<Rightarrow>
               (if Failed check then
                  (case time_Now e s1 of
                     (ts, s2) \<Rightarrow>
                       (let s3 = s2\<lparr>checks := (checks s2)
                                     [i := check\<lparr>Failed := False, Since := RFC3339 e ts\<rparr>],
                                   modified := etag ts\<rparr>;
                            subject = ''Fixed: '' @ name;
                            s4 = log subject None s3;
                            s5 = (if Notify check \<noteq> [] then notify e check subject None s4 else s4)
                        in if Alert check \<noteq> [] then alert e check name None False s5 else s5))
                else s1)
           | Some er \<Rightarrow>
               (if \<not> Failed check then
                  (case time_Now e s1 of
                     (ts, s2) \<Rightarrow>
                       (let s3 = s2\<lparr>checks := (checks s2)
                                     [i := check\<lparr>Failed := True, Since := RFC3339 e ts\<rparr>],
                                   modified := etag ts\<rparr>;
                            msg = out @ er;
                            subject = ''Failed: '' @ name;
                            s4 = log subject (Some msg) s3;
                            s5 = (if Notify check \<noteq> [] then notify e check subject (Some msg) s4
                                  else s4)
                        in if Alert check \<noteq> [] then alert e check name (Some msg) True s5 else s5))
                else s1)))"

subsection \<open>The web worker\<close>

definition Header_Get :: "Header \<Rightarrow> string \<Rightarrow> string" where
  "Header_Get h key = (case map_of h key of Some (v # _) \<Rightarrow> v | _ \<Rightarrow> [])"

definition Header_Set :: "Header \<Rightarrow> string \<Rightarrow> string \<Rightarrow> Header" where
  "Header_Set h key v = (key, [v]) # filter (\<lambda>p. fst p \<noteq> key) h"

text \<open>
  \<^verbatim>\<open>redirect\<close>, the client's \<^verbatim>\<open>CheckRedirect\<close> policy: the error, if any, and the
  upcoming request with its user agent set.
\<close>

definition redirect :: "Request \<Rightarrow> Request list \<Rightarrow> string option \<times> Request" where
  "redirect req via =
     (if length via \<ge> 10 then (Some ''stopped after 10 redirects'', req)
      else (None, req\<lparr>Header := Header_Set (Header req) ''User-Agent'' ''jsonmon''\<rparr>))"

text \<open>The text of a \<^verbatim>\<open>url.Error\<close>.\<close>

definition url_Error :: "string \<Rightarrow> string \<Rightarrow> string \<Rightarrow> string" where
  "url_Error op u err = op @ '' '' @ u @ '': '' @ err"

text \<open>
  \<^verbatim>\<open>Client.Do\<close> of net/http with the policy above, as its documentation describes it:
  before following a redirect the client calls \<^verbatim>\<open>CheckRedirect\<close> with the upcoming
  request and the requests made already, oldest first (so the original request is
  \<open>via ! 0\<close>); when the policy returns an error the client stops and returns that
  error wrapped in a \<^verbatim>\<open>url.Error\<close>. \<open>req\<close> is the upcoming request, \<open>via\<close> the
  requests made already. A redirected request starts with an empty header.
\<close>

function client_Do ::
  "env \<Rightarrow> Request \<Rightarrow> Request list \<Rightarrow> state \<Rightarrow> (string + int \<times> string) \<times> state" where
  "client_Do e req via s =
     (case (if via = [] then (None, req) else redirect req via) of
        (Some err, _) \<Rightarrow> (Inl (url_Error ''Get'' (URL req) err), s)
      | (None, req1) \<Rightarrow>
          (case RoundTrip e (clock s) req1 of
             Transport_error m \<Rightarrow>
               (Inl (url_Error ''Get'' (URL req1) m), emit (Ev_RoundTrip req1) s)
           | Redirect loc \<Rightarrow>
               client_Do e \<lparr>URL = loc, Header = []\<rparr> (via @ [req1]) (emit (Ev_RoundTrip req1) s)
           | Response code body \<Rightarrow> (Inr (code, body), emit (Ev_RoundTrip req1) s)))"
  by pat_completeness auto
termination
  by (relation "measure (\<lambda>(e, req, via, s). 11 - length via)")
     (auto simp: redirect_def split: if_splits)

declare client_Do.simps [simp del]

text \<open>\<^verbatim>\<open>fetch\<close>: the actual HTTP GET; the result is the error, if any.\<close>

definition fetch :: "env \<Rightarrow> string \<Rightarrow> string \<Rightarrow> int \<Rightarrow> state \<Rightarrow> string option \<times> state" where
  "fetch e url match code s =
     (case NewRequest e url of
        Some err \<Rightarrow> (Some err, s)
      | None \<Rightarrow>
          (case client_Do e \<lparr>URL = url, Header = Header_Set [] ''User-Agent'' ''jsonmon''\<rparr> [] s of
             (Inl err, s1) \<Rightarrow> (Some err, s1)
           | (Inr (status, body), s1) \<Rightarrow>
               (if status \<noteq> code then (Some (url @ '' returned '' @ Itoa status), s1)
                else if match \<noteq> [] then
                  (case regexp_Compile e match of
                     Some cerr \<Rightarrow> (Some cerr, s1)
                   | None \<Rightarrow>
                       (if \<not> regexp_Match e match body
                        then (Some (''Expected:\<newline>'' @ match
                                    @ ''\<newline>\<newline>Got:\<newline>'' @ body), s1)
                        else (None, s1)))
                else (None, s1))))"

text \<open>The attempts loop of \<^verbatim>\<open>web\<close>, from counter \<open>i\<close> with the current \<^verbatim>\<open>err\<close>.\<close>

function web_attempts ::
  "env \<Rightarrow> Check \<Rightarrow> int \<Rightarrow> int \<Rightarrow> string option \<Rightarrow> state \<Rightarrow> string option \<times> state" where
  "web_attempts e check sleep i err s =
     (if i < Tries check then
        (case fetch e (Web check) (Match check) (Return check) s of
           (err1, s1) \<Rightarrow>
             (case err1 of
                None \<Rightarrow> (None, s1)
              | Some _ \<Rightarrow>
                  web_attempts e check sleep (i + 1) err1
                    (if i + 1 < Tries check then time_Sleep sleep s1 else s1)))
      else (err, s))"
  by pat_completeness auto
termination
  by (relation "measure (\<lambda>(e, check, sleep, i, err, s). nat (Tries check - i))") auto

declare web_attempts.simps [simp del]

text \<open>\<^verbatim>\<open>web\<close>: one polling cycle of the check at index \<open>i\<close>.\<close>

definition web :: "env \<Rightarrow> nat \<Rightarrow> string \<Rightarrow> int \<Rightarrow> state \<Rightarrow> state" where
  "web e i name sleep s =
     (case web_attempts e (checks s ! i) sleep 0 None s of
        (err, s1) \<Rightarrow>
          (let check = checks s1 ! i in
           case err of
             None \<Rightarrow>
               (if Failed check then
                  (case time_Now e s1 of
                     (ts, s2) \<Rightarrow>
                       (let s3 = s2\<lparr>checks := (checks s2)
                                     [i := check\<lparr>Failed := False, Since := RFC3339 e ts\<rparr>],
                                   modified := etag ts\<rparr>;
                            subject = ''Fixed: '' @ name;
                            s4 = log subject None s3;
                            s5 = (if Notify check \<noteq> [] then notify e check subject None s4 else s4)
                        in if Alert check \<noteq> [] then alert e check name None False s5 else s5))
                else s1)
           | Some er \<Rightarrow>
               (if \<not> Failed check then
                  (case time_Now e s1 of
                     (ts, s2) \<Rightarrow>
                       (let s3 = s2\<lparr>checks := (checks s2)
                                     [i := check\<lparr>Failed := True, Since := RFC3339 e ts\<rparr>],
                                   modified := etag ts\<rparr>;
                            msg = er;
                            subject = ''Failed: '' @ name;
                            s4 = log subject (Some msg) s3;
                            s5 = (if Notify check \<noteq> [] then notify e check subject (Some msg) s4
                                  else s4)
                        in if Alert check \<noteq> [] then alert e check name (Some msg) True s5 else s5))
                else s1)))"

subsection \<open>The background worker\<close>

text \<open>
  The two endless loops of \<^verbatim>\<open>worker\<close>, observed for \<open>n\<close> rounds: a polling cycle,
  then the pause \<^verbatim>\<open>repeat\<close>.
\<close>

fun web_loop :: "nat \<Rightarrow> env \<Rightarrow> nat \<Rightarrow> string \<Rightarrow> int \<Rightarrow> int \<Rightarrow> state \<Rightarrow> state" where
  "web_loop 0 e i name sleep repeat s = s"
| "web_loop (Suc n) e i name sleep repeat s =
     web_loop n e i name sleep repeat (time_Sleep repeat (web e i name sleep s))"

fun shell_loop :: "nat \<Rightarrow> env \<Rightarrow> nat \<Rightarrow> string \<Rightarrow> int \<Rightarrow> int \<Rightarrow> state \<Rightarrow> state" where
  "shell_loop 0 e i name sleep repeat s = s"
| "shell_loop (Suc n) e i name sleep repeat s =
     shell_loop n e i name sleep repeat (time_Sleep repeat (shell e i name sleep s))"

definition set_check :: "nat \<Rightarrow> (Check \<Rightarrow> Check) \<Rightarrow> state \<Rightarrow> state" where
  "set_check i f s = s\<lparr>checks := (checks s)[i := f (checks s ! i)]\<rparr>"

text \<open>
  \<^verbatim>\<open>worker\<close> on \<^verbatim>\<open>&checks[i]\<close>, observed for \<open>n\<close> rounds of its loop. The flag says
  whether the goroutine has returned; it does so only for an entry it refuses.
\<close>

definition worker :: "nat \<Rightarrow> env \<Rightarrow> nat \<Rightarrow> state \<Rightarrow> bool \<times> state" where
  "worker n e i s =
     (let check = checks s ! i in
      if Shell check = [] \<and> Web check = [] then
        (True, set_check i (\<lambda>c. c\<lparr>Failed := True\<rparr>)
           (Fprint_Stderr ''<4>Ignoring entry with no either Web or shell check\<newline>'' s))
      else if Shell check \<noteq> [] \<and> Web check \<noteq> [] then
        (True, set_check i (\<lambda>c. c\<lparr>Failed := True\<rparr>)
           (Fprint_Stderr (''<3>Web and shell checks in one block are not allowed\<newline>''
              @ ''<3>Disabled: '' @ Shell check @ ''\<newline>''
              @ ''<3>Disabled: '' @ Web check @ ''\<newline>'') s))
      else
        (let s1 = set_check i (\<lambda>c. if Repeat c = 0 then c\<lparr>Repeat := 30\<rparr> else c) s;
             s2 = set_check i (\<lambda>c. if Tries c = 0 then c\<lparr>Tries := 1\<rparr> else c) s1;
             repeat = seconds (Repeat (checks s2 ! i));
             sleep = seconds (Sleep (checks s2 ! i))
         in if Web check \<noteq> [] then
              (let name = (if Name check \<noteq> [] then Name check else Web check);
                   s3 = (if Return (checks s2 ! i) = 0
                         then set_check i (\<lambda>c. c\<lparr>Return := 200\<rparr>) s2 else s2)
               in (False, web_loop n e i name sleep repeat s3))
            else
              (let name = (if Name check \<noteq> [] then Name check else Shell check)
               in (False, shell_loop n e i name sleep repeat s2))))"

text \<open>
  The start of \<^verbatim>\<open>main\<close> once the configuration is read. \<open>config\<close> is what
  \<^verbatim>\<open>yaml.Unmarshal\<close> found: \<open>None\<close> when the file holds no document, so that the slice
  stays nil, and the sequence of entries otherwise. The fields tagged \<^verbatim>\<open>yaml:"-"\<close> are
  never read from the file and keep their zero values, and both tokens are the tag of
  the start time.
\<close>

definition main_start :: "env \<Rightarrow> Check list option \<Rightarrow> state" where
  "main_start e config =
     (case time_Now e
        \<lparr>checks = (case config of
                      None \<Rightarrow> []
                    | Some cs \<Rightarrow> map (\<lambda>c. c\<lparr>Failed := False, Since := []\<rparr>) cs),
         checks_nil = (config = None),
         modified = [], started = [], clock = 0, trace = []\<rparr> of
        (ts, s) \<Rightarrow> s\<lparr>started := etag ts, modified := etag ts\<rparr>)"

subsection \<open>The status API\<close>

text \<open>
  \<^verbatim>\<open>json.Marshal\<close> on the checks, as encoding/json does it. A string is read as UTF-8
  the way \<^verbatim>\<open>utf8.DecodeRuneInString\<close> does: \<open>utf8_size\<close> is the number of bytes of the
  sequence at the head of a string, and 0 when the head starts no well-formed
  sequence (overlong forms, surrogates and values beyond U+10FFFF among them). In the
  output the quote and the backslash are escaped; line feed, carriage return and tab have
  their short forms, and so have backspace and form feed from Go 1.22 on; the other
  control characters and the characters <, > and & are written as \<^verbatim>\<open>\u00XX\<close>; a byte that
  starts no well-formed sequence becomes \<^verbatim>\<open>\ufffd\<close>; the separators U+2028 and U+2029
  are written as \<^verbatim>\<open>\u2028\<close> and \<^verbatim>\<open>\u2029\<close>; every other sequence is copied.
\<close>

definition byte :: "char \<Rightarrow> nat" where
  "byte c = of_char c"

definition continuation :: "char \<Rightarrow> bool" where
  "continuation c = (0x80 \<le> byte c \<and> byte c \<le> 0xBF)"

fun utf8_size :: "string \<Rightarrow> nat" where
  "utf8_size [] = 0"
| "utf8_size (c # cs) =
     (if byte c < 0x80 then 1
      else if 0xC2 \<le> byte c \<and> byte c \<le> 0xDF then
        (case cs of
           c1 # _ \<Rightarrow> if continuation c1 then 2 else 0
         | _ \<Rightarrow> 0)
      else if 0xE0 \<le> byte c \<and> byte c \<le> 0xEF then
        (case cs of
           c1 # c2 # _ \<Rightarrow>
             if (if byte c = 0xE0 then 0xA0 else 0x80) \<le> byte c1
                \<and> byte c1 \<le> (if byte c = 0xED then 0x9F else 0xBF)
                \<and> continuation c2
             then 3 else 0
         | _ \<Rightarrow> 0)
      else if 0xF0 \<le> byte c \<and> byte c \<le> 0xF4 then
        (case cs of
           c1 # c2 # c3 # _ \<Rightarrow>
             if (if byte c = 0xF0 then 0x90 else 0x80) \<le> byte c1
                \<and> byte c1 \<le> (if byte c = 0xF4 then 0x8F else 0xBF)
                \<and> continuation c2 \<and> continuation c3
             then 4 else 0
         | _ \<Rightarrow> 0)
      else 0)"

definition json_escape :: "bool \<Rightarrow> char \<Rightarrow> string" where
  "json_escape short c =
     (if c = CHR 0x22 \<or> c = CHR 0x5C then [CHR 0x5C, c]
      else if short \<and> c = CHR 0x08 then [CHR 0x5C, CHR ''b'']
      else if short \<and> c = CHR 0x0C then [CHR 0x5C, CHR ''f'']
      else if c = CHR 0x0A then [CHR 0x5C, CHR ''n'']
      else if c = CHR 0x0D then [CHR 0x5C, CHR ''r'']
      else if c = CHR 0x09 then [CHR 0x5C, CHR ''t'']
      else if byte c < 0x20 \<or> c = CHR ''<'' \<or> c = CHR ''>'' \<or> c = CHR ''&''
      then [CHR 0x5C, CHR ''u'', CHR ''0'', CHR ''0'',
            ''0123456789abcdef'' ! (byte c div 16), ''0123456789abcdef'' ! (byte c mod 16)]
      else [c])"

fun json_chars :: "bool \<Rightarrow> string \<Rightarrow> string" where
  "json_chars short [] = []"
| "json_chars short (c # cs) =
     (if byte c < 0x80 then json_escape short c @ json_chars short cs
      else if utf8_size (c # cs) = 0 then CHR 0x5C # ''ufffd'' @ json_chars short cs
      else if take 3 (c # cs) = [CHR 0xE2, CHR 0x80, CHR 0xA8]
      then CHR 0x5C # ''u2028'' @ json_chars short (drop 2 cs)
      else if take 3 (c # cs) = [CHR 0xE2, CHR 0x80, CHR 0xA9]
      then CHR 0x5C # ''u2029'' @ json_chars short (drop 2 cs)
      else take (utf8_size (c # cs)) (c # cs)
           @ json_chars short (drop (utf8_size (c # cs) - 1) cs))"

definition json_string :: "bool \<Rightarrow> string \<Rightarrow> string" where
  "json_string short s = [CHR 0x22] @ json_chars short s @ [CHR 0x22]"

fun join_comma :: "string list \<Rightarrow> string" where
  "join_comma [] = []"
| "join_comma [x] = x"
| "join_comma (x # y # ys) = x @ '','' @ join_comma (y # ys)"

definition json_key :: "string \<Rightarrow> string" where
  "json_key k = [CHR 0x22] @ k @ [CHR 0x22] @ '':''"

text \<open>
  One check: the fields in the order of the struct, those tagged \<^verbatim>\<open>omitempty\<close> left out
  when empty, those tagged \<^verbatim>\<open>"-"\<close> never written.
\<close>

definition json_Check :: "bool \<Rightarrow> Check \<Rightarrow> string" where
  "json_Check short c =
     ''{'' @ join_comma
       ((if Name c \<noteq> [] then [json_key ''name'' @ json_string short (Name c)] else [])
        @ (if Web c \<noteq> [] then [json_key ''web'' @ json_string short (Web c)] else [])
        @ (if Shell c \<noteq> [] then [json_key ''shell'' @ json_string short (Shell c)] else [])
        @ [json_key ''failed'' @ FormatBool (Failed c)]
        @ (if Since c \<noteq> [] then [json_key ''since'' @ json_string short (Since c)] else []))
     @ ''}''"

text \<open>The slice: \<^verbatim>\<open>null\<close> when it is nil, the array of its checks otherwise.\<close>

definition json_Marshal :: "bool \<Rightarrow> bool \<Rightarrow> Check list \<Rightarrow> string" where
  "json_Marshal short nil cs =
     (if nil then ''null'' else ''['' @ join_comma (map (json_Check short) cs) @ '']'')"

text \<open>
  An \<^verbatim>\<open>http.ResponseWriter\<close>: the header map, the status once it is written, the body.
  Writing the body first writes status 200 when none was written.
\<close>

record ResponseWriter =
  w_Header :: Header
  w_status :: "int option"
  w_body :: string

definition new_ResponseWriter :: ResponseWriter where
  "new_ResponseWriter = \<lparr>w_Header = [], w_status = None, w_body = []\<rparr>"

definition h_Set :: "string \<Rightarrow> string \<Rightarrow> ResponseWriter \<Rightarrow> ResponseWriter" where
  "h_Set key v w = w\<lparr>w_Header := Header_Set (w_Header w) key v\<rparr>"

definition WriteHeader :: "int \<Rightarrow> ResponseWriter \<Rightarrow> ResponseWriter" where
  "WriteHeader code w = (if w_status w = None then w\<lparr>w_status := Some code\<rparr> else w)"

definition Write :: "string \<Rightarrow> ResponseWriter \<Rightarrow> ResponseWriter" where
  "Write data w = (let w1 = WriteHeader 200 w in w1\<lparr>w_body := w_body w1 @ data\<rparr>)"

text \<open>
  \<^verbatim>\<open>displayJSON\<close>; \<open>data\<close> is what \<^verbatim>\<open>json.Marshal(&data)\<close> returns and \<open>cache\<close> the
  token \<^verbatim>\<open>*cache\<close>.
\<close>

definition displayJSON :: "ResponseWriter \<Rightarrow> Request \<Rightarrow> string \<Rightarrow> string \<Rightarrow> ResponseWriter" where
  "displayJSON w r data cache =
     (let w1 = h_Set ''Server'' ''jsonmon'' w in
      if Header_Get (Header r) ''If-None-Match'' = cache then WriteHeader 304 w1
      else
        (let w2 = h_Set ''ETag'' cache w1;
             result = data;
             w3 = h_Set ''Cache-Control'' ''no-cache'' w2;
             w4 = h_Set ''Access-Control-Allow-Origin'' ''*'' w3;
             w5 = h_Set ''X-Content-Type-Options'' ''nosniff'' w4;
             w6 = h_Set ''Content-Type'' ''application/json; charset=utf-8'' w5
         in Write result w6))"

text \<open>\<^verbatim>\<open>getChecks\<close>, the handler of \<^verbatim>\<open>/status\<close>.\<close>

definition getChecks :: "env \<Rightarrow> ResponseWriter \<Rightarrow> Request \<Rightarrow> state \<Rightarrow> ResponseWriter" where
  "getChecks e w r s =
     displayJSON w r (json_Marshal (short_escapes e) (checks_nil s) (checks s)) (modified s)"

subsection \<open>Observations on the trace\<close>

text \<open>
  A probe is a run of \<^verbatim>\<open>sh -c\<close> or an HTTP round trip; the callback is any other
  command run (its first argument is true or false, never \<^verbatim>\<open>-c\<close>); a token refresh
  reads the clock; a notification writes one line to standard output, and may start
  sendmail and run the callback.
\<close>

fun is_probe :: "event \<Rightarrow> bool" where
  "is_probe (Ev_Exec name args) = (name = ''sh'' \<and> take 1 args = [''-c''])"
| "is_probe (Ev_RoundTrip _) = True"
| "is_probe _ = False"

fun is_alert :: "event \<Rightarrow> bool" where
  "is_alert (Ev_Exec name args) = (\<not> (name = ''sh'' \<and> take 1 args = [''-c'']))"
| "is_alert _ = False"

fun is_sleep :: "event \<Rightarrow> bool" where
  "is_sleep (Ev_Sleep _) = True"
| "is_sleep _ = False"

fun is_refresh :: "event \<Rightarrow> bool" where
  "is_refresh Ev_Now = True"
| "is_refresh _ = False"

fun is_log :: "event \<Rightarrow> bool" where
  "is_log (Ev_Stdout _) = True"
| "is_log _ = False"

fun is_mail :: "event \<Rightarrow> bool" where
  "is_mail (Ev_Start _ _) = True"
| "is_mail _ = False"

text \<open>What probing alone adds to the trace.\<close>

definition probing :: "event \<Rightarrow> bool" where
  "probing ev = (is_probe ev \<or> is_sleep ev)"

text \<open>The events of \<open>s'\<close> that \<open>s\<close> does not have yet, when \<open>s'\<close> continues \<open>s\<close>.\<close>

definition new_events :: "state \<Rightarrow> state \<Rightarrow> event list" where
  "new_events s s' = drop (length (trace s)) (trace s')"

text \<open>\<open>s'\<close> continues the trace of \<open>s\<close>, with events of kind \<open>Q\<close> only.\<close>

definition adds :: "(event \<Rightarrow> bool) \<Rightarrow> state \<Rightarrow> state \<Rightarrow> bool" where
  "adds Q s s' = (take (length (trace s)) (trace s') = trace s \<and> list_all Q (new_events s s'))"

definition count_ev :: "(event \<Rightarrow> bool) \<Rightarrow> state \<Rightarrow> nat" where
  "count_ev P s = length (filter P (trace s))"


text \<open>
  One polling cycle seen from outside: its verdict (true for a failure), the state once
  the attempts are over, and the diagnostic of a failure.
\<close>

definition shell_verdict :: "env \<Rightarrow> nat \<Rightarrow> int \<Rightarrow> state \<Rightarrow> bool" where
  "shell_verdict e i sleep s =
     (case shell_attempts e (checks s ! i) sleep 0 [] None s of (out, err, s1) \<Rightarrow> err \<noteq> None)"

definition shell_probed :: "env \<Rightarrow> nat \<Rightarrow> int \<Rightarrow> state \<Rightarrow> state" where
  "shell_probed e i sleep s =
     (case shell_attempts e (checks s ! i) sleep 0 [] None s of (out, err, s1) \<Rightarrow> s1)"

definition shell_msg :: "env \<Rightarrow> nat \<Rightarrow> int \<Rightarrow> state \<Rightarrow> string option" where
  "shell_msg e i sleep s =
     (case shell_attempts e (checks s ! i) sleep 0 [] None s of
        (out, err, s1) \<Rightarrow> (case err of None \<Rightarrow> None | Some er \<Rightarrow> Some (out @ er)))"

text \<open>The arguments \<^verbatim>\<open>alert\<close> passes to the callback.\<close>

definition alert_args :: "string \<Rightarrow> string option \<Rightarrow> bool \<Rightarrow> string list" where
  "alert_args name msg failed =
     FormatBool failed # name # (case msg of None \<Rightarrow> [] | Some m \<Rightarrow> [m])"

definition web_verdict :: "env \<Rightarrow> nat \<Rightarrow> int \<Rightarrow> state \<Rightarrow> bool" where
  "web_verdict e i sleep s =
     (case web_attempts e (checks s ! i) sleep 0 None s of (err, s1) \<Rightarrow> err \<noteq> None)"

definition web_probed :: "env \<Rightarrow> nat \<Rightarrow> int \<Rightarrow> state \<Rightarrow> state" where
  "web_probed e i sleep s =
     (case web_attempts e (checks s ! i) sleep 0 None s of (err, s1) \<Rightarrow> s1)"

definition web_msg :: "env \<Rightarrow> nat \<Rightarrow> int \<Rightarrow> state \<Rightarrow> string option" where
  "web_msg e i sleep s =
     (case web_attempts e (checks s ! i) sleep 0 None s of (err, s1) \<Rightarrow> err)"

text \<open>The callback runs recorded in the trace.\<close>

definition alerts :: "state \<Rightarrow> event list" where
  "alerts s = filter is_alert (trace s)"

text \<open>The verdicts of the first \<open>n\<close> rounds of a worker's loop.\<close>

fun shell_verdicts :: "nat \<Rightarrow> env \<Rightarrow> nat \<Rightarrow> string \<Rightarrow> int \<Rightarrow> int \<Rightarrow> state \<Rightarrow> bool list" where
  "shell_verdicts 0 e i name sleep repeat s = []"
| "shell_verdicts (Suc n) e i name sleep repeat s =
     shell_verdict e i sleep s
     # shell_verdicts n e i name sleep repeat (time_Sleep repeat (shell e i name sleep s))"

fun web_verdicts :: "nat \<Rightarrow> env \<Rightarrow> nat \<Rightarrow> string \<Rightarrow> int \<Rightarrow> int \<Rightarrow> state \<Rightarrow> bool list" where
  "web_verdicts 0 e i name sleep repeat s = []"
| "web_verdicts (Suc n) e i name sleep repeat s =
     web_verdict e i sleep s
     # web_verdicts n e i name sleep repeat (time_Sleep repeat (web e i name sleep s))"

text \<open>
  \<open>s'\<close> has the cache of \<open>s\<close> (every check and the change token) and only probing was
  added to the trace: no clock was read, nothing was logged, mailed or called back.
\<close>

definition quiet :: "state \<Rightarrow> state \<Rightarrow> bool" where
  "quiet s s' = (checks s' = checks s \<and> modified s' = modified s \<and> adds probing s s')"

text \<open>
  From \<open>s\<close> to \<open>s'\<close> the token was refreshed at most once and at most one notification
  went out (one log line, one mail, one callback run).
\<close>

definition at_most_one_change :: "state \<Rightarrow> state \<Rightarrow> bool" where
  "at_most_one_change s s' =
     (count_ev is_refresh s' \<le> count_ev is_refresh s + 1
      \<and> count_ev is_log s' \<le> count_ev is_log s + 1
      \<and> count_ev is_mail s' \<le> count_ev is_mail s + 1
      \<and> count_ev is_alert s' \<le> count_ev is_alert s + 1)"

text \<open>An entry \<^verbatim>\<open>worker\<close> refuses: neither a shell command nor a URL, or both.\<close>

definition invalid :: "Check \<Rightarrow> bool" where
  "invalid c = ((Shell c = [] \<and> Web c = []) \<or> (Shell c \<noteq> [] \<and> Web c \<noteq> []))"

text \<open>A check without its runtime state.\<close>

definition config_of :: "Check \<Rightarrow> Check" where
  "config_of c = c\<lparr>Failed := False, Since := []\<rparr>"

text \<open>The defaults \<^verbatim>\<open>worker\<close> writes into a check it accepts, and the name it displays.\<close>

definition defaults :: "nat \<Rightarrow> state \<Rightarrow> state" where
  "defaults i s =
     set_check i (\<lambda>c. if Web c \<noteq> [] \<and> Return c = 0 then c\<lparr>Return := 200\<rparr> else c)
       (set_check i (\<lambda>c. if Tries c = 0 then c\<lparr>Tries := 1\<rparr> else c)
          (set_check i (\<lambda>c. if Repeat c = 0 then c\<lparr>Repeat := 30\<rparr> else c) s))"

definition display_name :: "Check \<Rightarrow> string" where
  "display_name c = (if Name c \<noteq> [] then Name c else if Web c \<noteq> [] then Web c else Shell c)"

text \<open>\<open>carries t d\<close>: the text \<open>t\<close> occurs in the diagnostic \<open>d\<close>.\<close>

fun carries :: "string \<Rightarrow> string \<Rightarrow> bool" where
  "carries t [] = (t = [])"
| "carries t (x # xs) = (take (length t) (x # xs) = t \<or> carries t xs)"

subsection \<open>Example inputs\<close>

text \<open>A world in which every command and every request succeeds and every pattern matches.\<close>

definition ok_env :: env where
  "ok_env = \<lparr>CombinedOutput = (\<lambda>t name args. (''ok\<newline>'', None)),
     RoundTrip = (\<lambda>t r. Response 200 []),
     UnixNano = (\<lambda>t. 1000 + int t),
     RFC3339 = (\<lambda>ts. ''T'' @ FormatInt ts),
     regexp_Compile = (\<lambda>p. None),
     regexp_Match = (\<lambda>p text. True),
     NewRequest = (\<lambda>u. None),
     Start = (\<lambda>t name args. None),
     short_escapes = False\<rparr>"

text \<open>The check \<^verbatim>\<open>- shell: echo ok\<close>, every other field unset.\<close>

definition echo_ok :: Check where
  "echo_ok = \<lparr>Name = [], Web = [], Shell = ''echo ok'', Match = [], Return = 0, Notify = [],
     Alert = [], Tries = 0, Repeat = 0, Sleep = 0, Failed = False, Since = []\<rparr>"

definition GET_status :: "string list \<Rightarrow> Request" where
  "GET_status validators = \<lparr>URL = ''/status'',
     Header = (if validators = [] then [] else [(''If-None-Match'', validators)])\<rparr>"

text \<open>A web check of one URL, every other field unset.\<close>

definition web_ok :: Check where
  "web_ok = \<lparr>Name = [], Web = ''http://localhost/'', Shell = [], Match = [], Return = 0,
     Notify = [], Alert = [], Tries = 0, Repeat = 0, Sleep = 0, Failed = False, Since = []\<rparr>"

text \<open>Both checks once their workers have filled in the defaults.\<close>

definition two_checks :: state where
  "two_checks = snd (worker 0 ok_env 1 (snd (worker 0 ok_env 0 (main_start ok_env (Some [echo_ok, web_ok])))))"

text \<open>A world in which every probe fails, and the callback too.\<close>

definition down_env :: env where
  "down_env = ok_env\<lparr>CombinedOutput :=
       (\<lambda>t name args. if name = ''sh'' then (''boom\<newline>'', Some ''exit status 1'')
                        else ([], Some ''exit status 2'')),
     RoundTrip := (\<lambda>t r. Response 500 [])\<rparr>"

text \<open>A shell check with a name, a callback and one attempt.\<close>

definition alerting :: Check where
  "alerting = echo_ok\<lparr>Name := ''disk'', Shell := ''df'', Alert := ''/bin/alert'', Tries := 1\<rparr>"

text \<open>A web check with a name, a callback and one attempt.\<close>

definition alerting_web :: Check where
  "alerting_web = web_ok\<lparr>Name := ''site'', Alert := ''/bin/alert'', Return := 200, Tries := 1\<rparr>"

text \<open>
  A world in which the command and the request succeed but no output matches, with a
  shell check and a web check that expect \<^verbatim>\<open>ok\<close> in three tries, five seconds apart.
\<close>

definition mismatch_env :: env where
  "mismatch_env = ok_env\<lparr>CombinedOutput := (\<lambda>t name args. (''no\<newline>'', None)),
     RoundTrip := (\<lambda>t r. Response 200 ''no''),
     regexp_Match := (\<lambda>p text. False)\<rparr>"

definition expects_ok :: Check where
  "expects_ok = echo_ok\<lparr>Shell := ''echo no'', Match := ''ok'', Tries := 3, Sleep := 5\<rparr>"

definition expects_ok_web :: Check where
  "expects_ok_web = web_ok\<lparr>Match := ''ok'', Return := 200, Tries := 3, Sleep := 5\<rparr>"

text \<open>
  A server that answers the URL \<^verbatim>\<open>/\<close> with a chain of \<open>n\<close> redirects, each to the
  URL one slash longer, and then with status 200.
\<close>

definition redirects_env :: "nat \<Rightarrow> env" where
  "redirects_env n = ok_env\<lparr>RoundTrip :=
     (\<lambda>t r. if length (URL r) \<le> n then Redirect (URL r @ ''/'') else Response 200 [])\<rparr>"

text \<open>A world in which no pattern compiles.\<close>

definition bad_pattern :: "env \<Rightarrow> env" where
  "bad_pattern e = e\<lparr>regexp_Compile :=
     (\<lambda>p. Some (''error parsing regexp: missing closing ): `'' @ p @ ''`''))\<rparr>"

text \<open>Both expecting checks as \<^verbatim>\<open>main\<close> loads them.\<close>

definition two_expecting :: state where
  "two_expecting = main_start mismatch_env (Some [expects_ok, expects_ok_web])"

text \<open>The request \<^verbatim>\<open>fetch\<close> sends for a URL.\<close>

definition GET :: "string \<Rightarrow> Request" where
  "GET url = \<lparr>URL = url, Header = [(''User-Agent'', [''jsonmon''])]\<rparr>"

text \<open>An entry without a probe, which the worker refuses, before a web check.\<close>

definition refused_first :: state where
  "refused_first = main_start ok_env (Some [echo_ok\<lparr>Shell := []\<rparr>, web_ok])"

text \<open>
  A web check whose name holds a quote, a less-than sign, the line separator U+2028 and a
  byte that is no UTF-8.
\<close>

definition odd_name :: Check where
  "odd_name = web_ok\<lparr>Name := [CHR ''a'', CHR 0x22, CHR ''<'', CHR 0xE2, CHR 0x80, CHR 0xA8, CHR 0xFF]\<rparr>"

text \<open>The state once the shell check of two has failed its first cycle.\<close>

definition one_down :: state where
  "one_down = shell down_env 0 ''disk'' 0 (main_start down_env (Some [alerting, odd_name]))"

section \<open>Properties\<close>

subsection \<open>Basic facts\<close>

lemma emit_simps [simp]:
  "checks (emit ev s) = checks s" "modified (emit ev s) = modified s"
  "started (emit ev s) = started s" "checks_nil (emit ev s) = checks_nil s"
  "trace (emit ev s) = trace s @ [ev]"
  "clock (emit ev s) = Suc (clock s)"
  by (simp_all add: emit_def)

lemma count_emit [simp]: "count_ev P (emit ev s) = count_ev P s + (if P ev then 1 else 0)"
  by (simp add: count_ev_def)

lemma count_upd [simp]:
  "count_ev P (s\<lparr>checks := cs\<rparr>) = count_ev P s"
  "count_ev P (s\<lparr>modified := m\<rparr>) = count_ev P s"
  by (simp_all add: count_ev_def)

lemma addsI: "trace s' = trace s @ evs \<Longrightarrow> list_all Q evs \<Longrightarrow> adds Q s s'"
  by (simp add: adds_def new_events_def)

lemma addsD: "adds Q s s' \<Longrightarrow> trace s' = trace s @ new_events s s' \<and> list_all Q (new_events s s')"
  unfolding adds_def new_events_def by (metis append_take_drop_id)

lemma adds_refl [simp]: "adds Q s s"
  by (simp add: adds_def new_events_def)

lemma adds_emit: "adds Q s s' \<Longrightarrow> Q ev \<Longrightarrow> adds Q s (emit ev s')"
proof -
  assume a: "adds Q s s'" and q: "Q ev"
  from addsD[OF a] have "trace (emit ev s') = trace s @ (new_events s s' @ [ev])"
    and "list_all Q (new_events s s' @ [ev])" using q by simp_all
  then show ?thesis by (rule addsI)
qed

lemma adds_trans: "adds Q s s1 \<Longrightarrow> adds Q s1 s2 \<Longrightarrow> adds Q s s2"
proof -
  assume a: "adds Q s s1" and b: "adds Q s1 s2"
  from addsD[OF a] addsD[OF b]
  have "trace s2 = trace s @ (new_events s s1 @ new_events s1 s2)"
    and "list_all Q (new_events s s1 @ new_events s1 s2)" by simp_all
  then show ?thesis by (rule addsI)
qed

lemma adds_mono: "adds Q s s' \<Longrightarrow> (\<And>ev. Q ev \<Longrightarrow> Q' ev) \<Longrightarrow> adds Q' s s'"
  unfolding adds_def by (auto simp: list_all_iff)

lemma adds_count: "adds Q s s' \<Longrightarrow> (\<And>ev. Q ev \<Longrightarrow> \<not> P ev) \<Longrightarrow> count_ev P s' = count_ev P s"
proof -
  assume a: "adds Q s s'" and d: "\<And>ev. Q ev \<Longrightarrow> \<not> P ev"
  from addsD[OF a] have t: "trace s' = trace s @ new_events s s'" and q: "list_all Q (new_events s s')"
    by simp_all
  from q d have "filter P (new_events s s') = []" by (auto simp: list_all_iff filter_empty_conv)
  with t show ?thesis by (simp add: count_ev_def)
qed

lemma adds_upd [simp]:
  "adds Q s (s'\<lparr>checks := cs\<rparr>) = adds Q s s'"
  "adds Q s (s'\<lparr>modified := m\<rparr>) = adds Q s s'"
  by (simp_all add: adds_def new_events_def)

lemma exec_frame:
  "exec_CombinedOutput e name args s = (out, err, s') \<Longrightarrow>
     s' = emit (Ev_Exec name args) s \<and> (out, err) = CombinedOutput e (clock s) name args"
  by (auto simp: exec_CombinedOutput_def split: prod.splits)

lemma shell_attempts_frame:
  "shell_attempts e c sl i out err s = (out', err', s') \<Longrightarrow>
     checks s' = checks s \<and> modified s' = modified s \<and> started s' = started s
     \<and> checks_nil s' = checks_nil s
     \<and> adds probing s s'"
proof (induction e c sl i out err s arbitrary: out' err' s' rule: shell_attempts.induct)
  case (1 e check sleep i out err s)
  show ?case
  proof (cases "i < Tries check")
    case False
    with "1.prems" show ?thesis by (simp add: shell_attempts.simps)
  next
    case True
    obtain o1 e1 s1 where ex: "exec_CombinedOutput e ''sh'' [''-c'', Shell check] s = (o1, e1, s1)"
      by (cases "exec_CombinedOutput e ''sh'' [''-c'', Shell check] s") auto
    then have s1: "s1 = emit (Ev_Exec ''sh'' [''-c'', Shell check]) s" by (simp add: exec_frame)
    have a1: "adds probing s s1" unfolding s1 by (rule adds_emit) (simp_all add: probing_def)
    show ?thesis
    proof (cases e1)
      case None
      with "1.prems" True ex have "s' = s1"
        by (auto simp: shell_attempts.simps split: if_splits option.splits)
      with a1 s1 show ?thesis by simp
    next
      case (Some a)
      let ?s2 = "if i + 1 < Tries check then time_Sleep sleep s1 else s1"
      from "1.prems" True ex Some have rec: "shell_attempts e check sleep (i + 1) o1 e1 ?s2 = (out', err', s')"
        by (simp add: shell_attempts.simps)
      have a2: "adds probing s1 ?s2"
        by (auto simp: time_Sleep_def probing_def intro!: adds_emit)
      from "1.IH"[OF True ex[symmetric] refl Some rec] s1 adds_trans[OF a1 adds_trans[OF a2]]
      show ?thesis by (auto simp: time_Sleep_def split: if_splits)
    qed
  qed
qed


subsection \<open>The status API\<close>

lemma Header_Get_Set: "Header_Get (Header_Set h k v) k' = (if k' = k then v else Header_Get h k')"
proof -
  have "map_of (filter (\<lambda>p. fst p \<noteq> k) h) k' = map_of h k'" if "k' \<noteq> k"
    using that by (induction h) auto
  then show ?thesis by (auto simp: Header_Get_def Header_Set_def)
qed

text \<open>
  C4, as the code has it. A request to \<^verbatim>\<open>/status\<close> whose \<^verbatim>\<open>If-None-Match\<close> value is the
  very string of the current change token is answered 304 with an empty body; any
  other request is answered 200 with the current token as its \<^verbatim>\<open>ETag\<close> and with the
  JSON encoding of the slice of checks as its body: the array of all checks in their
  order, or \<^verbatim>\<open>null\<close> when the slice is nil. The comparison is plain equality of
  strings.
\<close>

theorem status_conditional_get:
  "(let w = getChecks e new_ResponseWriter r s in
    if Header_Get (Header r) ''If-None-Match'' = modified s
    then w_status w = Some 304 \<and> w_body w = []
    else w_status w = Some 200
         \<and> w_body w = (if checks_nil s then ''null''
                       else ''['' @ join_comma (map (json_Check (short_escapes e)) (checks s)) @ '']'')
         \<and> Header_Get (w_Header w) ''ETag'' = modified s)"
  by (simp add: getChecks_def displayJSON_def Let_def h_Set_def WriteHeader_def Write_def
      new_ResponseWriter_def Header_Get_Set json_Marshal_def)

theorem status_conditional_get_witness:
  \<open>w_status (getChecks down_env new_ResponseWriter (GET_status [''W/"1002"'']) one_down) = Some 304
   \<and> w_body (getChecks down_env new_ResponseWriter (GET_status [''W/"1002"'']) one_down) = []
   \<and> w_status (getChecks down_env new_ResponseWriter (GET_status [''"1002"'']) one_down) = Some 200
   \<and> w_status (getChecks down_env new_ResponseWriter (GET_status [''W/"1000"'']) one_down) = Some 200
   \<and> w_body (getChecks down_env new_ResponseWriter (GET_status [''W/"1000"'']) one_down)
     = ''[{"name":"disk","shell":"df","failed":true,"since":"T1002"},''
       @ ''{"name":"a'' @ [CHR 0x5C] @ ''"'' @ [CHR 0x5C] @ ''u003c'' @ [CHR 0x5C] @ ''u2028''
       @ [CHR 0x5C] @ ''ufffd","web":"http://localhost/","failed":false}]''
   \<and> Header_Get (w_Header (getChecks down_env new_ResponseWriter (GET_status [''W/"1000"''])
        one_down)) ''ETag'' = ''W/"1002"''\<close>
proof -
  have m: \<open>modified one_down = ''W/"1002"''\<close>
    by code_simp
  have g1: \<open>Header_Get (Header (GET_status [''W/"1002"''])) ''If-None-Match'' = ''W/"1002"''\<close>
    by code_simp
  have g2: \<open>Header_Get (Header (GET_status [''"1002"''])) ''If-None-Match'' = ''"1002"''\<close>
    by code_simp
  have g3: \<open>Header_Get (Header (GET_status [''W/"1000"''])) ''If-None-Match'' = ''W/"1000"''\<close>
    by code_simp
  have n: "\<not> checks_nil one_down"
    by code_simp
  have j: \<open>''['' @ join_comma (map (json_Check (short_escapes down_env)) (checks one_down)) @ '']''
     = ''[{"name":"disk","shell":"df","failed":true,"since":"T1002"},''
       @ ''{"name":"a'' @ [CHR 0x5C] @ ''"'' @ [CHR 0x5C] @ ''u003c'' @ [CHR 0x5C] @ ''u2028''
       @ [CHR 0x5C] @ ''ufffd","web":"http://localhost/","failed":false}]''\<close>
    by code_simp
  note T1 = status_conditional_get [of down_env \<open>GET_status [''W/"1002"'']\<close> one_down]
  note T2 = status_conditional_get [of down_env \<open>GET_status [''"1002"'']\<close> one_down]
  note T3 = status_conditional_get [of down_env \<open>GET_status [''W/"1000"'']\<close> one_down]
  from T1 m g1
  have a: \<open>w_status (getChecks down_env new_ResponseWriter (GET_status [''W/"1002"'']) one_down)
        = Some 304
      \<and> w_body (getChecks down_env new_ResponseWriter (GET_status [''W/"1002"'']) one_down) = []\<close>
    by (simp add: Let_def)
  from T2 m g2
  have b: \<open>w_status (getChecks down_env new_ResponseWriter (GET_status [''"1002"'']) one_down)
        = Some 200\<close>
    by (simp add: Let_def)
  from T3 m g3 n
  have c: \<open>w_status (getChecks down_env new_ResponseWriter (GET_status [''W/"1000"'']) one_down)
        = Some 200
      \<and> w_body (getChecks down_env new_ResponseWriter (GET_status [''W/"1000"'']) one_down)
        = ''['' @ join_comma (map (json_Check (short_escapes down_env)) (checks one_down)) @ '']''
      \<and> Header_Get (w_Header (getChecks down_env new_ResponseWriter (GET_status [''W/"1000"''])
           one_down)) ''ETag'' = ''W/"1002"''\<close>
    by (simp add: Let_def)
  from a b c j show ?thesis by simp
qed

text \<open>
  The claim as the specification words it, a body that is always the JSON array of the
  checks, fails after a configuration file without a document: the slice is nil and
  the body is \<^verbatim>\<open>null\<close>, not the empty array.
\<close>

theorem status_conditional_get_counterexample:
  "w_status (getChecks ok_env new_ResponseWriter (GET_status []) (main_start ok_env None)) = Some 200
   \<and> w_body (getChecks ok_env new_ResponseWriter (GET_status []) (main_start ok_env None)) = ''null''
   \<and> w_body (getChecks ok_env new_ResponseWriter (GET_status []) (main_start ok_env None)) \<noteq> ''[]''"
  by code_simp

subsection \<open>What one polling cycle changes\<close>

lemma client_Do_frame:
  "client_Do e req via s = (r, s') \<Longrightarrow>
     checks s' = checks s \<and> modified s' = modified s \<and> started s' = started s
     \<and> checks_nil s' = checks_nil s
     \<and> adds is_probe s s'"
proof (induction e req via s arbitrary: r s' rule: client_Do.induct)
  case (1 e req via s)
  obtain err req1 where pol: "(if via = [] then (None, req) else redirect req via) = (err, req1)"
    by (cases "if via = [] then (None, req) else redirect req via") auto
  show ?case
  proof (cases err)
    case (Some a)
    with "1.prems" pol have "s' = s" by (simp add: client_Do.simps[of e req via s])
    then show ?thesis by simp
  next
    case None
    let ?s1 = "emit (Ev_RoundTrip req1) s"
    have a1: "adds is_probe s ?s1" by (rule adds_emit) simp_all
    show ?thesis
    proof (cases "RoundTrip e (clock s) req1")
      case (Response code body)
      with "1.prems" pol None have "s' = ?s1" by (simp add: client_Do.simps[of e req via s])
      with a1 show ?thesis by simp
    next
      case (Transport_error m)
      with "1.prems" pol None have "s' = ?s1" by (simp add: client_Do.simps[of e req via s])
      with a1 show ?thesis by simp
    next
      case (Redirect loc)
      with "1.prems" pol None
      have rec: "client_Do e \<lparr>URL = loc, Header = []\<rparr> (via @ [req1]) ?s1 = (r, s')"
        by (simp add: client_Do.simps[of e req via s])
      from "1.IH"[OF pol[symmetric] None Redirect rec] adds_trans[OF a1]
      show ?thesis by simp
    qed
  qed
qed

lemma fetch_frame:
  "fetch e url match code s = (err, s') \<Longrightarrow>
     checks s' = checks s \<and> modified s' = modified s \<and> started s' = started s
     \<and> checks_nil s' = checks_nil s
     \<and> adds is_probe s s'"
  by (auto simp: fetch_def split: option.splits prod.splits sum.splits if_splits
      dest!: client_Do_frame)

lemma web_attempts_frame:
  "web_attempts e c sl i err s = (err', s') \<Longrightarrow>
     checks s' = checks s \<and> modified s' = modified s \<and> started s' = started s
     \<and> checks_nil s' = checks_nil s
     \<and> adds probing s s'"
proof (induction e c sl i err s arbitrary: err' s' rule: web_attempts.induct)
  case (1 e check sleep i err s)
  show ?case
  proof (cases "i < Tries check")
    case False
    with "1.prems" show ?thesis by (simp add: web_attempts.simps)
  next
    case True
    obtain e1 s1 where ex: "fetch e (Web check) (Match check) (Return check) s = (e1, s1)"
      by (cases "fetch e (Web check) (Match check) (Return check) s") auto
    from fetch_frame[OF ex] have f: "checks s1 = checks s" "modified s1 = modified s"
      "started s1 = started s" "checks_nil s1 = checks_nil s" and a1: "adds probing s s1"
      by (auto intro: adds_mono simp: probing_def)
    show ?thesis
    proof (cases e1)
      case None
      with "1.prems" True ex have "s' = s1" by (simp add: web_attempts.simps[of e check sleep i err s])
      with a1 f show ?thesis by simp
    next
      case (Some a)
      let ?s2 = "if i + 1 < Tries check then time_Sleep sleep s1 else s1"
      from "1.prems" True ex Some have rec: "web_attempts e check sleep (i + 1) e1 ?s2 = (err', s')"
        by (simp add: web_attempts.simps[of e check sleep i err s])
      have a2: "adds probing s1 ?s2"
        by (auto simp: time_Sleep_def probing_def intro!: adds_emit)
      from "1.IH"[OF True ex[symmetric] Some rec] f adds_trans[OF a1 adds_trans[OF a2]]
      show ?thesis by (auto simp: time_Sleep_def split: if_splits)
    qed
  qed
qed

lemma log_simps [simp]:
  "checks (log subj m s) = checks s" "modified (log subj m s) = modified s"
  "started (log subj m s) = started s" "checks_nil (log subj m s) = checks_nil s"
  "count_ev is_log (log subj m s) = Suc (count_ev is_log s)"
  "count_ev is_refresh (log subj m s) = count_ev is_refresh s"
  "count_ev is_mail (log subj m s) = count_ev is_mail s"
  "count_ev is_alert (log subj m s) = count_ev is_alert s"
  "count_ev is_probe (log subj m s) = count_ev is_probe s"
  by (simp_all add: log_def Print_def split: option.splits)

lemma notify_simps [simp]:
  "checks (notify e c subj m s) = checks s" "modified (notify e c subj m s) = modified s"
  "started (notify e c subj m s) = started s"
  "checks_nil (notify e c subj m s) = checks_nil s"
  "count_ev is_log (notify e c subj m s) = count_ev is_log s"
  "count_ev is_refresh (notify e c subj m s) = count_ev is_refresh s"
  "count_ev is_mail (notify e c subj m s) = Suc (count_ev is_mail s)"
  "count_ev is_alert (notify e c subj m s) = count_ev is_alert s"
  "count_ev is_probe (notify e c subj m s) = count_ev is_probe s"
  by (simp_all add: notify_def Let_def Fprint_Stderr_def split: option.splits)

lemma alert_eq:
  "alert e c name m f s =
     (case CombinedOutput e (clock s) (Alert c) (alert_args name m f) of
        (out, None) \<Rightarrow> emit (Ev_Exec (Alert c) (alert_args name m f)) s
      | (out, Some er) \<Rightarrow>
          emit (Ev_Stderr (''<3>'' @ Alert c @ '' failed\<newline>'' @ out @ er @ ''\<newline>''))
            (emit (Ev_Exec (Alert c) (alert_args name m f)) s))"
  by (cases m)
     (simp_all add: alert_def alert_args_def exec_CombinedOutput_def Fprint_Stderr_def
        split: prod.splits option.splits)

lemma is_alert_args [simp]:
  "is_alert (Ev_Exec cmd (alert_args name m f))" "\<not> is_probe (Ev_Exec cmd (alert_args name m f))"
  by (simp_all add: alert_args_def FormatBool_def)

lemma alert_simps [simp]:
  "checks (alert e c name m f s) = checks s" "modified (alert e c name m f s) = modified s"
  "started (alert e c name m f s) = started s"
  "checks_nil (alert e c name m f s) = checks_nil s"
  "count_ev is_log (alert e c name m f s) = count_ev is_log s"
  "count_ev is_refresh (alert e c name m f s) = count_ev is_refresh s"
  "count_ev is_mail (alert e c name m f s) = count_ev is_mail s"
  "count_ev is_alert (alert e c name m f s) = Suc (count_ev is_alert s)"
  "count_ev is_probe (alert e c name m f s) = count_ev is_probe s"
  by (simp_all add: alert_eq del: is_alert.simps(1) is_probe.simps(1)
      split: prod.splits option.splits)

lemma shell_steady:
  assumes "shell_verdict e i sl s = Failed (checks s ! i)"
  shows "shell e i name sl s = shell_probed e i sl s"
proof -
  obtain out err s1 where a: "shell_attempts e (checks s ! i) sl 0 [] None s = (out, err, s1)"
    by (cases "shell_attempts e (checks s ! i) sl 0 [] None s") auto
  from shell_attempts_frame[OF a] have "checks s1 = checks s" by simp
  with assms a show ?thesis
    by (auto simp: shell_def shell_verdict_def shell_probed_def Let_def split: option.splits)
qed

lemma shell_probed_frame:
  "checks (shell_probed e i sl s) = checks s \<and> modified (shell_probed e i sl s) = modified s
   \<and> started (shell_probed e i sl s) = started s
   \<and> checks_nil (shell_probed e i sl s) = checks_nil s
   \<and> adds probing s (shell_probed e i sl s)"
proof -
  obtain out err s1 where a: "shell_attempts e (checks s ! i) sl 0 [] None s = (out, err, s1)"
    by (cases "shell_attempts e (checks s ! i) sl 0 [] None s") auto
  from shell_attempts_frame[OF a] show ?thesis by (simp add: shell_probed_def a)
qed

lemma shell_transition:
  assumes "shell_verdict e i sl s \<noteq> Failed (checks s ! i)"
  shows "checks (shell e i name sl s) =
           (checks s)[i := (checks s ! i)\<lparr>Failed := shell_verdict e i sl s,
              Since := RFC3339 e (UnixNano e (clock (shell_probed e i sl s)))\<rparr>]"
    and "modified (shell e i name sl s) = etag (UnixNano e (clock (shell_probed e i sl s)))"
    and "started (shell e i name sl s) = started s"
    and "count_ev is_log (shell e i name sl s) = Suc (count_ev is_log s)"
    and "count_ev is_refresh (shell e i name sl s) = Suc (count_ev is_refresh s)"
    and "count_ev is_mail (shell e i name sl s) =
           count_ev is_mail s + (if Notify (checks s ! i) \<noteq> [] then 1 else 0)"
    and "count_ev is_alert (shell e i name sl s) =
           count_ev is_alert s + (if Alert (checks s ! i) \<noteq> [] then 1 else 0)"
proof -
  obtain out err s1 where a: "shell_attempts e (checks s ! i) sl 0 [] None s = (out, err, s1)"
    by (cases "shell_attempts e (checks s ! i) sl 0 [] None s") auto
  from shell_attempts_frame[OF a] have f: "checks s1 = checks s" "modified s1 = modified s"
    "started s1 = started s" and ad: "adds probing s s1" by simp_all
  have c: "count_ev is_log s1 = count_ev is_log s" "count_ev is_refresh s1 = count_ev is_refresh s"
    "count_ev is_mail s1 = count_ev is_mail s" "count_ev is_alert s1 = count_ev is_alert s"
    by (rule adds_count[OF ad], auto simp: probing_def elim: is_probe.elims is_sleep.elims)+
  from assms a f show "checks (shell e i name sl s) =
           (checks s)[i := (checks s ! i)\<lparr>Failed := shell_verdict e i sl s,
              Since := RFC3339 e (UnixNano e (clock (shell_probed e i sl s)))\<rparr>]"
    by (auto simp: shell_def shell_verdict_def shell_probed_def Let_def time_Now_def
        split: option.splits)
  from assms a f show "modified (shell e i name sl s) = etag (UnixNano e (clock (shell_probed e i sl s)))"
    by (auto simp: shell_def shell_verdict_def shell_probed_def Let_def time_Now_def
        split: option.splits)
  from assms a f show "started (shell e i name sl s) = started s"
    by (auto simp: shell_def shell_verdict_def shell_probed_def Let_def time_Now_def
        split: option.splits)
  from assms a f c show "count_ev is_log (shell e i name sl s) = Suc (count_ev is_log s)"
    by (auto simp: shell_def shell_verdict_def shell_probed_def Let_def time_Now_def
        split: option.splits)
  from assms a f c show "count_ev is_refresh (shell e i name sl s) = Suc (count_ev is_refresh s)"
    by (auto simp: shell_def shell_verdict_def shell_probed_def Let_def time_Now_def
        split: option.splits)
  from assms a f c show "count_ev is_mail (shell e i name sl s) =
           count_ev is_mail s + (if Notify (checks s ! i) \<noteq> [] then 1 else 0)"
    by (auto simp: shell_def shell_verdict_def shell_probed_def Let_def time_Now_def
        split: option.splits)
  from assms a f c show "count_ev is_alert (shell e i name sl s) =
           count_ev is_alert s + (if Alert (checks s ! i) \<noteq> [] then 1 else 0)"
    by (auto simp: shell_def shell_verdict_def shell_probed_def Let_def time_Now_def
        split: option.splits)
qed

lemma alerts_simps [simp]:
  "alerts (emit ev s) = alerts s @ (if is_alert ev then [ev] else [])"
  "alerts (s\<lparr>checks := cs\<rparr>) = alerts s"
  "alerts (s\<lparr>modified := m\<rparr>) = alerts s"
  "alerts (log subj msg s) = alerts s"
  "alerts (notify e c subj msg s) = alerts s"
  "alerts (alert e c name msg f s) = alerts s @ [Ev_Exec (Alert c) (alert_args name msg f)]"
  by (simp_all add: alerts_def log_def Print_def notify_def Let_def Fprint_Stderr_def alert_eq
      del: is_alert.simps(1) split: option.splits prod.splits)

lemma adds_alerts: "adds probing s s' \<Longrightarrow> alerts s' = alerts s"
proof -
  assume a: "adds probing s s'"
  from addsD[OF a] have t: "trace s' = trace s @ new_events s s'"
    and q: "list_all probing (new_events s s')" by simp_all
  have "\<not> is_alert ev" if "probing ev" for ev
    using that by (cases ev) (auto simp: probing_def)
  with q have "filter is_alert (new_events s s') = []"
    by (auto simp: list_all_iff filter_empty_conv)
  with t show ?thesis by (simp add: alerts_def)
qed

lemma probing_counts:
  assumes "adds probing s s'"
  shows "count_ev is_log s' = count_ev is_log s" "count_ev is_refresh s' = count_ev is_refresh s"
    "count_ev is_mail s' = count_ev is_mail s" "count_ev is_alert s' = count_ev is_alert s"
  by (rule adds_count[OF assms], auto simp: probing_def elim: is_probe.elims is_sleep.elims)+

lemma shell_alerts:
  "alerts (shell e i name sl s) =
     alerts s @ (if shell_verdict e i sl s \<noteq> Failed (checks s ! i) \<and> Alert (checks s ! i) \<noteq> []
                 then [Ev_Exec (Alert (checks s ! i))
                        (alert_args name (shell_msg e i sl s) (shell_verdict e i sl s))]
                 else [])"
proof -
  obtain out err s1 where a: "shell_attempts e (checks s ! i) sl 0 [] None s = (out, err, s1)"
    by (cases "shell_attempts e (checks s ! i) sl 0 [] None s") auto
  from shell_attempts_frame[OF a] have f: "checks s1 = checks s" and ad: "adds probing s s1"
    by simp_all
  from adds_alerts[OF ad] a f show ?thesis
    by (auto simp: shell_def shell_verdict_def shell_msg_def Let_def time_Now_def
        split: option.splits)
qed

lemma web_steady:
  assumes "web_verdict e i sl s = Failed (checks s ! i)"
  shows "web e i name sl s = web_probed e i sl s"
proof -
  obtain err s1 where a: "web_attempts e (checks s ! i) sl 0 None s = (err, s1)"
    by (cases "web_attempts e (checks s ! i) sl 0 None s") auto
  from web_attempts_frame[OF a] have "checks s1 = checks s" by simp
  with assms a show ?thesis
    by (auto simp: web_def web_verdict_def web_probed_def Let_def split: option.splits)
qed

lemma web_probed_frame:
  "checks (web_probed e i sl s) = checks s \<and> modified (web_probed e i sl s) = modified s
   \<and> started (web_probed e i sl s) = started s
   \<and> checks_nil (web_probed e i sl s) = checks_nil s
   \<and> adds probing s (web_probed e i sl s)"
proof -
  obtain err s1 where a: "web_attempts e (checks s ! i) sl 0 None s = (err, s1)"
    by (cases "web_attempts e (checks s ! i) sl 0 None s") auto
  from web_attempts_frame[OF a] show ?thesis by (simp add: web_probed_def a)
qed

lemma web_transition:
  assumes "web_verdict e i sl s \<noteq> Failed (checks s ! i)"
  shows "checks (web e i name sl s) =
           (checks s)[i := (checks s ! i)\<lparr>Failed := web_verdict e i sl s,
              Since := RFC3339 e (UnixNano e (clock (web_probed e i sl s)))\<rparr>]"
    and "modified (web e i name sl s) = etag (UnixNano e (clock (web_probed e i sl s)))"
    and "started (web e i name sl s) = started s"
    and "count_ev is_log (web e i name sl s) = Suc (count_ev is_log s)"
    and "count_ev is_refresh (web e i name sl s) = Suc (count_ev is_refresh s)"
    and "count_ev is_mail (web e i name sl s) =
           count_ev is_mail s + (if Notify (checks s ! i) \<noteq> [] then 1 else 0)"
    and "count_ev is_alert (web e i name sl s) =
           count_ev is_alert s + (if Alert (checks s ! i) \<noteq> [] then 1 else 0)"
proof -
  obtain err s1 where a: "web_attempts e (checks s ! i) sl 0 None s = (err, s1)"
    by (cases "web_attempts e (checks s ! i) sl 0 None s") auto
  from web_attempts_frame[OF a] have f: "checks s1 = checks s" "modified s1 = modified s"
    "started s1 = started s" and ad: "adds probing s s1" by simp_all
  note c = probing_counts[OF ad]
  note defs = web_def web_verdict_def web_probed_def Let_def time_Now_def
  from assms a f show "checks (web e i name sl s) =
           (checks s)[i := (checks s ! i)\<lparr>Failed := web_verdict e i sl s,
              Since := RFC3339 e (UnixNano e (clock (web_probed e i sl s)))\<rparr>]"
    by (auto simp: defs split: option.splits)
  from assms a f show "modified (web e i name sl s) = etag (UnixNano e (clock (web_probed e i sl s)))"
    by (auto simp: defs split: option.splits)
  from assms a f show "started (web e i name sl s) = started s"
    by (auto simp: defs split: option.splits)
  from assms a f c show "count_ev is_log (web e i name sl s) = Suc (count_ev is_log s)"
    by (auto simp: defs split: option.splits)
  from assms a f c show "count_ev is_refresh (web e i name sl s) = Suc (count_ev is_refresh s)"
    by (auto simp: defs split: option.splits)
  from assms a f c show "count_ev is_mail (web e i name sl s) =
           count_ev is_mail s + (if Notify (checks s ! i) \<noteq> [] then 1 else 0)"
    by (auto simp: defs split: option.splits)
  from assms a f c show "count_ev is_alert (web e i name sl s) =
           count_ev is_alert s + (if Alert (checks s ! i) \<noteq> [] then 1 else 0)"
    by (auto simp: defs split: option.splits)
qed

lemma web_alerts:
  "alerts (web e i name sl s) =
     alerts s @ (if web_verdict e i sl s \<noteq> Failed (checks s ! i) \<and> Alert (checks s ! i) \<noteq> []
                 then [Ev_Exec (Alert (checks s ! i))
                        (alert_args name (web_msg e i sl s) (web_verdict e i sl s))]
                 else [])"
proof -
  obtain err s1 where a: "web_attempts e (checks s ! i) sl 0 None s = (err, s1)"
    by (cases "web_attempts e (checks s ! i) sl 0 None s") auto
  from web_attempts_frame[OF a] have f: "checks s1 = checks s" and ad: "adds probing s s1"
    by simp_all
  from adds_alerts[OF ad] a f show ?thesis
    by (auto simp: web_def web_verdict_def web_msg_def Let_def time_Now_def
        split: option.splits)
qed

lemma shell_quiet:
  "shell_verdict e i sl s = Failed (checks s ! i) \<Longrightarrow> quiet s (shell e i name sl s)"
  using shell_probed_frame[of e i sl s] by (simp add: shell_steady quiet_def)

lemma web_quiet:
  "web_verdict e i sl s = Failed (checks s ! i) \<Longrightarrow> quiet s (web e i name sl s)"
  using web_probed_frame[of e i sl s] by (simp add: web_steady quiet_def)

lemma quiet_refl [simp]: "quiet s s"
  by (simp add: quiet_def)

lemma quiet_trans: "quiet s s1 \<Longrightarrow> quiet s1 s2 \<Longrightarrow> quiet s s2"
  by (auto simp: quiet_def intro: adds_trans)

lemma quiet_Sleep: "quiet s s1 \<Longrightarrow> quiet s (time_Sleep d s1)"
  by (auto simp: quiet_def time_Sleep_def probing_def intro: adds_emit)

lemma quiet_counts:
  assumes "quiet s s'"
  shows "count_ev is_log s' = count_ev is_log s" "count_ev is_refresh s' = count_ev is_refresh s"
    "count_ev is_mail s' = count_ev is_mail s" "count_ev is_alert s' = count_ev is_alert s"
  using assms probing_counts[of s s'] by (simp_all add: quiet_def)

lemma shell_loop_quiet:
  "Failed (checks s ! i) = b \<Longrightarrow> list_all (\<lambda>v. v = b) (shell_verdicts n e i name sl rp s)
     \<Longrightarrow> quiet s (shell_loop n e i name sl rp s)"
proof (induction n arbitrary: s)
  case 0
  then show ?case by simp
next
  case (Suc n)
  let ?s1 = "time_Sleep rp (shell e i name sl s)"
  from Suc.prems have v: "shell_verdict e i sl s = Failed (checks s ! i)" by simp
  have q: "quiet s ?s1" by (rule quiet_Sleep) (rule shell_quiet[OF v])
  then have "Failed (checks ?s1 ! i) = b" using Suc.prems(1) by (simp add: quiet_def)
  moreover from Suc.prems have "list_all (\<lambda>v. v = b) (shell_verdicts n e i name sl rp ?s1)" by simp
  ultimately have "quiet ?s1 (shell_loop n e i name sl rp ?s1)" by (rule Suc.IH)
  with q show ?case by (auto intro: quiet_trans)
qed

lemma web_loop_quiet:
  "Failed (checks s ! i) = b \<Longrightarrow> list_all (\<lambda>v. v = b) (web_verdicts n e i name sl rp s)
     \<Longrightarrow> quiet s (web_loop n e i name sl rp s)"
proof (induction n arbitrary: s)
  case 0
  then show ?case by simp
next
  case (Suc n)
  let ?s1 = "time_Sleep rp (web e i name sl s)"
  from Suc.prems have v: "web_verdict e i sl s = Failed (checks s ! i)" by simp
  have q: "quiet s ?s1" by (rule quiet_Sleep) (rule web_quiet[OF v])
  then have "Failed (checks ?s1 ! i) = b" using Suc.prems(1) by (simp add: quiet_def)
  moreover from Suc.prems have "list_all (\<lambda>v. v = b) (web_verdicts n e i name sl rp ?s1)" by simp
  ultimately have "quiet ?s1 (web_loop n e i name sl rp ?s1)" by (rule Suc.IH)
  with q show ?case by (auto intro: quiet_trans)
qed

lemma shell_at_most_one: "at_most_one_change s (shell e i name sl s)"
proof (cases "shell_verdict e i sl s = Failed (checks s ! i)")
  case True
  from quiet_counts[OF shell_quiet[OF True]] show ?thesis by (simp add: at_most_one_change_def)
next
  case False
  from shell_transition(4-7)[OF False] show ?thesis by (simp add: at_most_one_change_def)
qed

lemma web_at_most_one: "at_most_one_change s (web e i name sl s)"
proof (cases "web_verdict e i sl s = Failed (checks s ! i)")
  case True
  from quiet_counts[OF web_quiet[OF True]] show ?thesis by (simp add: at_most_one_change_def)
next
  case False
  from web_transition(4-7)[OF False] show ?thesis by (simp add: at_most_one_change_def)
qed

lemma at_most_one_quiet: "at_most_one_change s s1 \<Longrightarrow> quiet s1 s2 \<Longrightarrow> at_most_one_change s s2"
  using quiet_counts[of s1 s2] by (simp add: at_most_one_change_def)

lemma shell_Failed_after:
  "i < length (checks s) \<Longrightarrow> Failed (checks (shell e i name sl s) ! i) = shell_verdict e i sl s"
proof (cases "shell_verdict e i sl s = Failed (checks s ! i)")
  case True
  assume "i < length (checks s)"
  from shell_quiet[OF True] True show ?thesis by (simp add: quiet_def)
next
  case False
  assume "i < length (checks s)"
  with shell_transition(1)[OF False] show ?thesis by simp
qed

lemma web_Failed_after:
  "i < length (checks s) \<Longrightarrow> Failed (checks (web e i name sl s) ! i) = web_verdict e i sl s"
proof (cases "web_verdict e i sl s = Failed (checks s ! i)")
  case True
  assume "i < length (checks s)"
  from web_quiet[OF True] True show ?thesis by (simp add: quiet_def)
next
  case False
  assume "i < length (checks s)"
  with web_transition(1)[OF False] show ?thesis by simp
qed

lemma shell_loop_at_most_one:
  assumes "i < length (checks s)" "list_all (\<lambda>v. v = b) (shell_verdicts n e i name sl rp s)"
  shows "at_most_one_change s (shell_loop n e i name sl rp s)
         \<and> quiet (shell_loop (min n 1) e i name sl rp s) (shell_loop n e i name sl rp s)"
proof (cases n)
  case 0
  then show ?thesis by (simp add: at_most_one_change_def)
next
  case (Suc m)
  let ?s1 = "time_Sleep rp (shell e i name sl s)"
  from assms Suc have v: "shell_verdict e i sl s = b"
    and vs: "list_all (\<lambda>v. v = b) (shell_verdicts m e i name sl rp ?s1)" by simp_all
  have "Failed (checks ?s1 ! i) = b"
    using shell_Failed_after[OF assms(1), of e name sl] v by (simp add: time_Sleep_def)
  from shell_loop_quiet[OF this vs] have q: "quiet ?s1 (shell_loop m e i name sl rp ?s1)" .
  have "at_most_one_change s ?s1"
    using shell_at_most_one[of s e i name sl] by (simp add: at_most_one_change_def time_Sleep_def)
  from at_most_one_quiet[OF this q] q Suc show ?thesis by simp
qed

lemma web_loop_at_most_one:
  assumes "i < length (checks s)" "list_all (\<lambda>v. v = b) (web_verdicts n e i name sl rp s)"
  shows "at_most_one_change s (web_loop n e i name sl rp s)
         \<and> quiet (web_loop (min n 1) e i name sl rp s) (web_loop n e i name sl rp s)"
proof (cases n)
  case 0
  then show ?thesis by (simp add: at_most_one_change_def)
next
  case (Suc m)
  let ?s1 = "time_Sleep rp (web e i name sl s)"
  from assms Suc have v: "web_verdict e i sl s = b"
    and vs: "list_all (\<lambda>v. v = b) (web_verdicts m e i name sl rp ?s1)" by simp_all
  have "Failed (checks ?s1 ! i) = b"
    using web_Failed_after[OF assms(1), of e name sl] v by (simp add: time_Sleep_def)
  from web_loop_quiet[OF this vs] have q: "quiet ?s1 (web_loop m e i name sl rp ?s1)" .
  have "at_most_one_change s ?s1"
    using web_at_most_one[of s e i name sl] by (simp add: at_most_one_change_def time_Sleep_def)
  from at_most_one_quiet[OF this q] q Suc show ?thesis by simp
qed

subsection \<open>Transitions only on a change of verdict\<close>

text \<open>
  C2. A polling cycle whose verdict equals the check's \<^verbatim>\<open>Failed\<close> flag leaves every check
  (so \<^verbatim>\<open>Failed\<close> and \<^verbatim>\<open>Since\<close>) and the change token as they were and adds nothing but
  probing to the trace; a cycle whose verdict differs sets \<^verbatim>\<open>Failed\<close> and \<^verbatim>\<open>Since\<close>
  together and refreshes the token. Over any run of rounds with equal verdicts there is
  at most one token refresh and one notification, the cache at the end is the cache
  after the first round, and when the flag already had that verdict (all successes on
  a check that never failed) nothing changes at all. This holds for the shell and for
  the web worker.
\<close>

theorem equal_verdicts_change_once:
  assumes "i < length (checks s)"
  shows
    "(shell_verdict e i sl s = Failed (checks s ! i) \<longrightarrow> quiet s (shell e i name sl s))
     \<and> (web_verdict e i sl s = Failed (checks s ! i) \<longrightarrow> quiet s (web e i name sl s))
     \<and> (shell_verdict e i sl s \<noteq> Failed (checks s ! i) \<longrightarrow>
          checks (shell e i name sl s) =
            (checks s)[i := (checks s ! i)\<lparr>Failed := shell_verdict e i sl s,
               Since := RFC3339 e (UnixNano e (clock (shell_probed e i sl s)))\<rparr>]
          \<and> modified (shell e i name sl s) = etag (UnixNano e (clock (shell_probed e i sl s))))
     \<and> (web_verdict e i sl s \<noteq> Failed (checks s ! i) \<longrightarrow>
          checks (web e i name sl s) =
            (checks s)[i := (checks s ! i)\<lparr>Failed := web_verdict e i sl s,
               Since := RFC3339 e (UnixNano e (clock (web_probed e i sl s)))\<rparr>]
          \<and> modified (web e i name sl s) = etag (UnixNano e (clock (web_probed e i sl s))))
     \<and> (list_all (\<lambda>v. v = b) (shell_verdicts n e i name sl rp s) \<longrightarrow>
          at_most_one_change s (shell_loop n e i name sl rp s)
          \<and> quiet (shell_loop (min n 1) e i name sl rp s) (shell_loop n e i name sl rp s)
          \<and> (Failed (checks s ! i) = b \<longrightarrow> quiet s (shell_loop n e i name sl rp s)))
     \<and> (list_all (\<lambda>v. v = b) (web_verdicts n e i name sl rp s) \<longrightarrow>
          at_most_one_change s (web_loop n e i name sl rp s)
          \<and> quiet (web_loop (min n 1) e i name sl rp s) (web_loop n e i name sl rp s)
          \<and> (Failed (checks s ! i) = b \<longrightarrow> quiet s (web_loop n e i name sl rp s)))"
proof (intro conjI impI)
  assume "shell_verdict e i sl s = Failed (checks s ! i)"
  then show "quiet s (shell e i name sl s)" by (rule shell_quiet)
next
  assume "web_verdict e i sl s = Failed (checks s ! i)"
  then show "quiet s (web e i name sl s)" by (rule web_quiet)
next
  assume a: "shell_verdict e i sl s \<noteq> Failed (checks s ! i)"
  show "checks (shell e i name sl s) =
            (checks s)[i := (checks s ! i)\<lparr>Failed := shell_verdict e i sl s,
               Since := RFC3339 e (UnixNano e (clock (shell_probed e i sl s)))\<rparr>]"
    by (rule shell_transition(1)[OF a])
  show "modified (shell e i name sl s) = etag (UnixNano e (clock (shell_probed e i sl s)))"
    by (rule shell_transition(2)[OF a])
next
  assume a: "web_verdict e i sl s \<noteq> Failed (checks s ! i)"
  show "checks (web e i name sl s) =
            (checks s)[i := (checks s ! i)\<lparr>Failed := web_verdict e i sl s,
               Since := RFC3339 e (UnixNano e (clock (web_probed e i sl s)))\<rparr>]"
    by (rule web_transition(1)[OF a])
  show "modified (web e i name sl s) = etag (UnixNano e (clock (web_probed e i sl s)))"
    by (rule web_transition(2)[OF a])
next
  assume a: "list_all (\<lambda>v. v = b) (shell_verdicts n e i name sl rp s)"
  from shell_loop_at_most_one[OF assms a]
  show "at_most_one_change s (shell_loop n e i name sl rp s)"
    and "quiet (shell_loop (min n 1) e i name sl rp s) (shell_loop n e i name sl rp s)"
    by simp_all
  assume "Failed (checks s ! i) = b"
  then show "quiet s (shell_loop n e i name sl rp s)" using a by (rule shell_loop_quiet)
next
  assume a: "list_all (\<lambda>v. v = b) (web_verdicts n e i name sl rp s)"
  from web_loop_at_most_one[OF assms a]
  show "at_most_one_change s (web_loop n e i name sl rp s)"
    and "quiet (web_loop (min n 1) e i name sl rp s) (web_loop n e i name sl rp s)"
    by simp_all
  assume "Failed (checks s ! i) = b"
  then show "quiet s (web_loop n e i name sl rp s)" using a by (rule web_loop_quiet)
qed

theorem equal_verdicts_change_once_witness:
  "quiet two_checks (shell ok_env 0 ''echo ok'' 0 two_checks)
   \<and> quiet two_checks (web ok_env 1 ''http://localhost/'' 0 two_checks)
   \<and> quiet two_checks (shell_loop 3 ok_env 0 ''echo ok'' 0 (seconds 30) two_checks)
   \<and> quiet two_checks (web_loop 3 ok_env 1 ''http://localhost/'' 0 (seconds 30) two_checks)
   \<and> Since (checks (shell_loop 3 ok_env 0 ''echo ok'' 0 (seconds 30) two_checks) ! 0) = []
   \<and> modified (shell down_env 0 ''disk'' 0 (main_start down_env (Some [alerting]))) = etag 1002
   \<and> modified (web down_env 0 ''site'' 0 (main_start down_env (Some [alerting_web]))) = etag 1002"
proof -
  have l2: "0 < length (checks (main_start down_env (Some [alerting])))"
    and l3: "0 < length (checks (main_start down_env (Some [alerting_web])))"
    by code_simp+
  have v2: "shell_verdict down_env 0 0 (main_start down_env (Some [alerting]))
      \<noteq> Failed (checks (main_start down_env (Some [alerting])) ! 0)"
    by code_simp
  have v3: "web_verdict down_env 0 0 (main_start down_env (Some [alerting_web]))
      \<noteq> Failed (checks (main_start down_env (Some [alerting_web])) ! 0)"
    by code_simp
  have c2: "UnixNano down_env (clock (shell_probed down_env 0 0 (main_start down_env (Some [alerting]))))
      = 1002"
    by code_simp
  have c3: "UnixNano down_env (clock (web_probed down_env 0 0 (main_start down_env (Some [alerting_web]))))
      = 1002"
    by code_simp
  note T2 = equal_verdicts_change_once [OF l2, where e = down_env and sl = 0
      and name = "''disk''"]
  note T3 = equal_verdicts_change_once [OF l3, where e = down_env and sl = 0
      and name = "''site''"]
  from T2 v2 have "modified (shell down_env 0 ''disk'' 0 (main_start down_env (Some [alerting])))
      = etag (UnixNano down_env (clock (shell_probed down_env 0 0 (main_start down_env (Some [alerting])))))"
    by blast
  with c2 have t2: "modified (shell down_env 0 ''disk'' 0 (main_start down_env (Some [alerting])))
      = etag 1002"
    by simp
  from T3 v3 have "modified (web down_env 0 ''site'' 0 (main_start down_env (Some [alerting_web])))
      = etag (UnixNano down_env (clock (web_probed down_env 0 0 (main_start down_env (Some [alerting_web])))))"
    by blast
  with c3 have t3: "modified (web down_env 0 ''site'' 0 (main_start down_env (Some [alerting_web])))
      = etag 1002"
    by simp
  have l0: "0 < length (checks two_checks)" and l1: "1 < length (checks two_checks)"
    by code_simp+
  have f0: "Failed (checks two_checks ! 0) = False" and f1: "Failed (checks two_checks ! 1) = False"
    by code_simp+
  have s0: "Since (checks two_checks ! 0) = []"
    by code_simp
  have v0: "shell_verdict ok_env 0 0 two_checks = Failed (checks two_checks ! 0)"
    by code_simp
  have v1: "web_verdict ok_env 1 0 two_checks = Failed (checks two_checks ! 1)"
    by code_simp
  have r0: "list_all (\<lambda>v. v = False)
      (shell_verdicts 3 ok_env 0 ''echo ok'' 0 (seconds 30) two_checks)"
    by code_simp
  have r1: "list_all (\<lambda>v. v = False)
      (web_verdicts 3 ok_env 1 ''http://localhost/'' 0 (seconds 30) two_checks)"
    by code_simp
  note T0 = equal_verdicts_change_once [OF l0, where e = ok_env and sl = 0
      and name = "''echo ok''" and b = False and n = 3 and rp = "seconds 30"]
  note T1 = equal_verdicts_change_once [OF l1, where e = ok_env and sl = 0
      and name = "''http://localhost/''" and b = False and n = 3 and rp = "seconds 30"]
  have a: "quiet two_checks (shell ok_env 0 ''echo ok'' 0 two_checks)"
    using T0 v0 by blast
  have b: "quiet two_checks (web ok_env 1 ''http://localhost/'' 0 two_checks)"
    using T1 v1 by blast
  have c: "quiet two_checks (shell_loop 3 ok_env 0 ''echo ok'' 0 (seconds 30) two_checks)"
    using T0 r0 f0 by blast
  have d: "quiet two_checks (web_loop 3 ok_env 1 ''http://localhost/'' 0 (seconds 30) two_checks)"
    using T1 r1 f1 by blast
  from c s0 have "Since (checks (shell_loop 3 ok_env 0 ''echo ok'' 0 (seconds 30) two_checks) ! 0) = []"
    by (simp add: quiet_def)
  with a b c d t2 t3 show ?thesis by blast
qed

subsection \<open>The worker\<close>

lemma set_check_simps [simp]:
  "checks (set_check i f s) = (checks s)[i := f (checks s ! i)]"
  "modified (set_check i f s) = modified s" "started (set_check i f s) = started s"
  "checks_nil (set_check i f s) = checks_nil s"
  "trace (set_check i f s) = trace s" "clock (set_check i f s) = clock s"
  "count_ev P (set_check i f s) = count_ev P s"
  by (simp_all add: set_check_def count_ev_def)

lemma shell_nil: "checks_nil (shell e i name sl s) = checks_nil s"
proof -
  obtain out err s1 where a: "shell_attempts e (checks s ! i) sl 0 [] None s = (out, err, s1)"
    by (cases "shell_attempts e (checks s ! i) sl 0 [] None s") auto
  from shell_attempts_frame[OF a] have "checks_nil s1 = checks_nil s" by simp
  with a show ?thesis
    by (auto simp: shell_def Let_def time_Now_def split: option.splits)
qed

lemma web_nil: "checks_nil (web e i name sl s) = checks_nil s"
proof -
  obtain err s1 where a: "web_attempts e (checks s ! i) sl 0 None s = (err, s1)"
    by (cases "web_attempts e (checks s ! i) sl 0 None s") auto
  from web_attempts_frame[OF a] have "checks_nil s1 = checks_nil s" by simp
  with a show ?thesis
    by (auto simp: web_def Let_def time_Now_def split: option.splits)
qed

lemma shell_loop_nil: "checks_nil (shell_loop n e i name sl rp s) = checks_nil s"
  by (induction n arbitrary: s) (simp_all add: shell_nil time_Sleep_def)

lemma web_loop_nil: "checks_nil (web_loop n e i name sl rp s) = checks_nil s"
  by (induction n arbitrary: s) (simp_all add: web_nil time_Sleep_def)

lemma worker_nil: "checks_nil (snd (worker n e i s)) = checks_nil s"
  by (simp add: worker_def Let_def shell_loop_nil web_loop_nil Fprint_Stderr_def)

lemma worker_invalid:
  assumes "invalid (checks s ! i)"
  shows "\<exists>line. worker n e i s =
           (True, set_check i (\<lambda>c. c\<lparr>Failed := True\<rparr>) (Fprint_Stderr line s))"
  using assms by (auto simp: worker_def invalid_def Let_def)

lemma worker_valid:
  assumes "i < length (checks s)" "\<not> invalid (checks s ! i)"
  shows "worker n e i s =
     (False,
      if Web (checks s ! i) \<noteq> []
      then web_loop n e i (display_name (checks s ! i)) (seconds (Sleep (checks s ! i)))
             (seconds (Repeat (checks (defaults i s) ! i))) (defaults i s)
      else shell_loop n e i (display_name (checks s ! i)) (seconds (Sleep (checks s ! i)))
             (seconds (Repeat (checks (defaults i s) ! i))) (defaults i s))"
  using assms
  by (auto simp: worker_def invalid_def Let_def defaults_def display_name_def set_check_def)

lemma defaults_check:
  assumes "i < length (checks s)"
  shows "checks (defaults i s) ! i =
     (checks s ! i)\<lparr>Repeat := (if Repeat (checks s ! i) = 0 then 30 else Repeat (checks s ! i)),
        Tries := (if Tries (checks s ! i) = 0 then 1 else Tries (checks s ! i)),
        Return := (if Web (checks s ! i) \<noteq> [] \<and> Return (checks s ! i) = 0 then 200
                   else Return (checks s ! i))\<rparr>"
    and "length (checks (defaults i s)) = length (checks s)"
    and "modified (defaults i s) = modified s" and "trace (defaults i s) = trace s"
  using assms by (simp_all add: defaults_def)

lemma shell_config:
  assumes "i < length (checks s)"
  shows "config_of (checks (shell e i name sl s) ! i) = config_of (checks s ! i)
         \<and> length (checks (shell e i name sl s)) = length (checks s)"
proof (cases "shell_verdict e i sl s = Failed (checks s ! i)")
  case True
  from shell_quiet[OF True] show ?thesis by (simp add: quiet_def)
next
  case False
  from shell_transition(1)[OF False] assms show ?thesis by (simp add: config_of_def)
qed

lemma web_config:
  assumes "i < length (checks s)"
  shows "config_of (checks (web e i name sl s) ! i) = config_of (checks s ! i)
         \<and> length (checks (web e i name sl s)) = length (checks s)"
proof (cases "web_verdict e i sl s = Failed (checks s ! i)")
  case True
  from web_quiet[OF True] show ?thesis by (simp add: quiet_def)
next
  case False
  from web_transition(1)[OF False] assms show ?thesis by (simp add: config_of_def)
qed

lemma shell_loop_config:
  "i < length (checks s) \<Longrightarrow>
     config_of (checks (shell_loop n e i name sl rp s) ! i) = config_of (checks s ! i)
     \<and> length (checks (shell_loop n e i name sl rp s)) = length (checks s)"
proof (induction n arbitrary: s)
  case 0
  then show ?case by simp
next
  case (Suc n)
  let ?s1 = "time_Sleep rp (shell e i name sl s)"
  from shell_config[OF Suc.prems, of e name sl]
  have c: "config_of (checks ?s1 ! i) = config_of (checks s ! i)"
    and l: "length (checks ?s1) = length (checks s)" by (simp_all add: time_Sleep_def)
  from l Suc.prems have "i < length (checks ?s1)" by simp
  from Suc.IH[OF this] c l show ?case by simp
qed

lemma web_loop_config:
  "i < length (checks s) \<Longrightarrow>
     config_of (checks (web_loop n e i name sl rp s) ! i) = config_of (checks s ! i)
     \<and> length (checks (web_loop n e i name sl rp s)) = length (checks s)"
proof (induction n arbitrary: s)
  case 0
  then show ?case by simp
next
  case (Suc n)
  let ?s1 = "time_Sleep rp (web e i name sl s)"
  from web_config[OF Suc.prems, of e name sl]
  have c: "config_of (checks ?s1 ! i) = config_of (checks s ! i)"
    and l: "length (checks ?s1) = length (checks s)" by (simp_all add: time_Sleep_def)
  from l Suc.prems have "i < length (checks ?s1)" by simp
  from Suc.IH[OF this] c l show ?case by simp
qed

lemma config_of_fields:
  assumes "config_of c' = config_of c"
  shows "Tries c' = Tries c" "Repeat c' = Repeat c" "Return c' = Return c" "Sleep c' = Sleep c"
    "Name c' = Name c" "Web c' = Web c" "Shell c' = Shell c" "Match c' = Match c"
    "Notify c' = Notify c" "Alert c' = Alert c"
proof -
  have "Tries (config_of c') = Tries (config_of c)" "Repeat (config_of c') = Repeat (config_of c)"
    "Return (config_of c') = Return (config_of c)" "Sleep (config_of c') = Sleep (config_of c)"
    "Name (config_of c') = Name (config_of c)" "Web (config_of c') = Web (config_of c)"
    "Shell (config_of c') = Shell (config_of c)" "Match (config_of c') = Match (config_of c)"
    "Notify (config_of c') = Notify (config_of c)" "Alert (config_of c') = Alert (config_of c)"
    using assms by simp_all
  then show "Tries c' = Tries c" "Repeat c' = Repeat c" "Return c' = Return c" "Sleep c' = Sleep c"
    "Name c' = Name c" "Web c' = Web c" "Shell c' = Shell c" "Match c' = Match c"
    "Notify c' = Notify c" "Alert c' = Alert c"
    by (simp_all add: config_of_def)
qed

lemma shell_loop_snoc:
  "shell_loop (Suc n) e i name sl rp s
     = time_Sleep rp (shell e i name sl (shell_loop n e i name sl rp s))"
  by (induction n arbitrary: s) simp_all

lemma web_loop_snoc:
  "web_loop (Suc n) e i name sl rp s
     = time_Sleep rp (web e i name sl (web_loop n e i name sl rp s))"
  by (induction n arbitrary: s) simp_all

lemma worker_config:
  assumes "i < length (checks s)" "\<not> invalid (checks s ! i)"
  shows "config_of (checks (snd (worker n e i s)) ! i) = config_of (checks (defaults i s) ! i)"
proof -
  have l: "i < length (checks (defaults i s))" using assms(1) by (simp add: defaults_check)
  show ?thesis
    using shell_loop_config[OF l] web_loop_config[OF l]
    by (simp add: worker_valid[OF assms])
qed

lemma worker_pause:
  assumes "i < length (checks s)" "\<not> invalid (checks s ! i)"
  shows "last (trace (snd (worker (Suc n) e i s)))
     = Ev_Sleep (seconds (Repeat (checks (defaults i s) ! i)))"
  by (simp add: worker_valid[OF assms] shell_loop_snoc web_loop_snoc time_Sleep_def
      del: shell_loop.simps web_loop.simps)

text \<open>
  A worker that accepts its check probes at least once in every round, when \<^verbatim>\<open>tries\<close> is
  not negative and, for a web check, the URL makes a request.
\<close>

lemma adds_count_le: "adds Q s s' \<Longrightarrow> count_ev P s \<le> count_ev P s'"
proof -
  assume a: "adds Q s s'"
  from addsD[OF a] have "trace s' = trace s @ new_events s s'" by simp
  then show ?thesis by (simp add: count_ev_def)
qed

lemma shell_probed_probes:
  assumes "0 < Tries (checks s ! i)"
  shows "Suc (count_ev is_probe s) \<le> count_ev is_probe (shell_probed e i sl s)"
proof -
  let ?c = "checks s ! i"
  obtain o1 e1 where c: "CombinedOutput e (clock s) ''sh'' [''-c'', Shell ?c] = (o1, e1)"
    by (cases "CombinedOutput e (clock s) ''sh'' [''-c'', Shell ?c]") auto
  let ?s1 = "emit (Ev_Exec ''sh'' [''-c'', Shell ?c]) s"
  have ex: "exec_CombinedOutput e ''sh'' [''-c'', Shell ?c] s = (o1, e1, ?s1)"
    by (simp add: exec_CombinedOutput_def c)
  have c1: "count_ev is_probe ?s1 = Suc (count_ev is_probe s)" by simp
  show ?thesis
  proof (cases e1)
    case None
    with assms ex have "shell_probed e i sl s = ?s1"
      by (simp add: shell_probed_def shell_attempts.simps[of e ?c sl 0] split: option.splits)
    with c1 show ?thesis by simp
  next
    case (Some a)
    let ?s2 = "if 0 + 1 < Tries ?c then time_Sleep sl ?s1 else ?s1"
    obtain o2 e2 s3 where r: "shell_attempts e ?c sl (0 + 1) o1 e1 ?s2 = (o2, e2, s3)"
      by (cases "shell_attempts e ?c sl (0 + 1) o1 e1 ?s2") auto
    from assms ex Some r have p: "shell_probed e i sl s = s3"
      by (simp add: shell_probed_def shell_attempts.simps[of e ?c sl 0])
    from shell_attempts_frame[OF r] have "adds probing ?s2 s3" by simp
    from adds_count_le[OF this, of is_probe] have "count_ev is_probe ?s2 \<le> count_ev is_probe s3" .
    moreover have "count_ev is_probe ?s1 \<le> count_ev is_probe ?s2"
      by (simp add: time_Sleep_def)
    ultimately show ?thesis using c1 p by simp
  qed
qed

lemma shell_probes_eq:
  "count_ev is_probe (shell e i name sl s) = count_ev is_probe (shell_probed e i sl s)"
proof -
  obtain out err s1 where a: "shell_attempts e (checks s ! i) sl 0 [] None s = (out, err, s1)"
    by (cases "shell_attempts e (checks s ! i) sl 0 [] None s") auto
  from shell_attempts_frame[OF a] have "checks s1 = checks s" by simp
  with a show ?thesis
    by (auto simp: shell_def shell_probed_def Let_def time_Now_def split: option.splits)
qed

lemma shell_loop_probes:
  "i < length (checks s) \<Longrightarrow> 0 < Tries (checks s ! i) \<Longrightarrow>
     count_ev is_probe s + n \<le> count_ev is_probe (shell_loop n e i name sl rp s)"
proof (induction n arbitrary: s)
  case 0
  then show ?case by simp
next
  case (Suc n)
  let ?s1 = "time_Sleep rp (shell e i name sl s)"
  from shell_config[OF Suc.prems(1), of e name sl]
  have c: "config_of (checks ?s1 ! i) = config_of (checks s ! i)"
    and l: "length (checks ?s1) = length (checks s)" by (simp_all add: time_Sleep_def)
  from config_of_fields(1)[OF c] Suc.prems(2) have t: "0 < Tries (checks ?s1 ! i)" by simp
  from l Suc.prems(1) have "i < length (checks ?s1)" by simp
  from Suc.IH[OF this t] have "count_ev is_probe ?s1 + n \<le> count_ev is_probe (shell_loop n e i name sl rp ?s1)" .
  moreover have "Suc (count_ev is_probe s) \<le> count_ev is_probe ?s1"
    using shell_probed_probes[OF Suc.prems(2), of e sl] by (simp add: shell_probes_eq time_Sleep_def)
  ultimately show ?case by simp
qed

lemma client_Do_probes:
  "client_Do e req [] s = (r, s') \<Longrightarrow> Suc (count_ev is_probe s) \<le> count_ev is_probe s'"
proof -
  assume a: "client_Do e req [] s = (r, s')"
  let ?s1 = "emit (Ev_RoundTrip req) s"
  have c1: "count_ev is_probe ?s1 = Suc (count_ev is_probe s)" by simp
  show ?thesis
  proof (cases "RoundTrip e (clock s) req")
    case (Response code body)
    with a have "s' = ?s1" by (simp add: client_Do.simps[of e req "[]" s])
    with c1 show ?thesis by simp
  next
    case (Transport_error m)
    with a have "s' = ?s1" by (simp add: client_Do.simps[of e req "[]" s])
    with c1 show ?thesis by simp
  next
    case (Redirect loc)
    with a have "client_Do e \<lparr>URL = loc, Header = []\<rparr> ([] @ [req]) ?s1 = (r, s')"
      by (simp add: client_Do.simps[of e req "[]" s])
    from client_Do_frame[OF this] have "adds is_probe ?s1 s'" by simp
    from adds_count_le[OF this, of is_probe] c1 show ?thesis by simp
  qed
qed

lemma fetch_probes:
  "NewRequest e url = None \<Longrightarrow> fetch e url match code s = (err, s') \<Longrightarrow>
     Suc (count_ev is_probe s) \<le> count_ev is_probe s'"
  by (auto simp: fetch_def split: prod.splits sum.splits if_splits option.splits
      dest!: client_Do_probes)

lemma web_probed_probes:
  assumes "0 < Tries (checks s ! i)" and "NewRequest e (Web (checks s ! i)) = None"
  shows "Suc (count_ev is_probe s) \<le> count_ev is_probe (web_probed e i sl s)"
proof -
  let ?c = "checks s ! i"
  obtain e1 s1 where ex: "fetch e (Web ?c) (Match ?c) (Return ?c) s = (e1, s1)"
    by (cases "fetch e (Web ?c) (Match ?c) (Return ?c) s") auto
  from fetch_probes[OF assms(2) ex] have c1: "Suc (count_ev is_probe s) \<le> count_ev is_probe s1" .
  show ?thesis
  proof (cases e1)
    case None
    with assms ex have "web_probed e i sl s = s1"
      by (simp add: web_probed_def web_attempts.simps[of e ?c sl 0])
    with c1 show ?thesis by simp
  next
    case (Some a)
    let ?s2 = "if 0 + 1 < Tries ?c then time_Sleep sl s1 else s1"
    obtain e2 s3 where r: "web_attempts e ?c sl (0 + 1) e1 ?s2 = (e2, s3)"
      by (cases "web_attempts e ?c sl (0 + 1) e1 ?s2") auto
    from assms ex Some r have p: "web_probed e i sl s = s3"
      by (simp add: web_probed_def web_attempts.simps[of e ?c sl 0])
    from web_attempts_frame[OF r] have "adds probing ?s2 s3" by simp
    from adds_count_le[OF this, of is_probe] have "count_ev is_probe ?s2 \<le> count_ev is_probe s3" .
    moreover have "count_ev is_probe s1 \<le> count_ev is_probe ?s2"
      by (simp add: time_Sleep_def)
    ultimately show ?thesis using c1 p by simp
  qed
qed

lemma web_probes_eq:
  "count_ev is_probe (web e i name sl s) = count_ev is_probe (web_probed e i sl s)"
proof -
  obtain err s1 where a: "web_attempts e (checks s ! i) sl 0 None s = (err, s1)"
    by (cases "web_attempts e (checks s ! i) sl 0 None s") auto
  from web_attempts_frame[OF a] have "checks s1 = checks s" by simp
  with a show ?thesis
    by (auto simp: web_def web_probed_def Let_def time_Now_def split: option.splits)
qed

lemma web_loop_probes:
  "i < length (checks s) \<Longrightarrow> 0 < Tries (checks s ! i) \<Longrightarrow>
   NewRequest e (Web (checks s ! i)) = None \<Longrightarrow>
     count_ev is_probe s + n \<le> count_ev is_probe (web_loop n e i name sl rp s)"
proof (induction n arbitrary: s)
  case 0
  then show ?case by simp
next
  case (Suc n)
  let ?s1 = "time_Sleep rp (web e i name sl s)"
  from web_config[OF Suc.prems(1), of e name sl]
  have c: "config_of (checks ?s1 ! i) = config_of (checks s ! i)"
    and l: "length (checks ?s1) = length (checks s)" by (simp_all add: time_Sleep_def)
  from config_of_fields(1)[OF c] Suc.prems(2) have t: "0 < Tries (checks ?s1 ! i)" by simp
  from config_of_fields(6)[OF c] Suc.prems(3) have u: "NewRequest e (Web (checks ?s1 ! i)) = None"
    by simp
  from l Suc.prems(1) have "i < length (checks ?s1)" by simp
  from Suc.IH[OF this t u] have "count_ev is_probe ?s1 + n \<le> count_ev is_probe (web_loop n e i name sl rp ?s1)" .
  moreover have "Suc (count_ev is_probe s) \<le> count_ev is_probe ?s1"
    using web_probed_probes[OF Suc.prems(2,3), of sl] by (simp add: web_probes_eq time_Sleep_def)
  ultimately show ?case by simp
qed

lemma worker_probes:
  assumes "i < length (checks s)" and "\<not> invalid (checks s ! i)" and "0 \<le> Tries (checks s ! i)"
    and "Web (checks s ! i) \<noteq> [] \<longrightarrow> NewRequest e (Web (checks s ! i)) = None"
  shows "count_ev is_probe s + n \<le> count_ev is_probe (snd (worker n e i s))"
proof -
  let ?s2 = "defaults i s"
  have l: "i < length (checks ?s2)" using assms(1) by (simp add: defaults_check)
  have t: "0 < Tries (checks ?s2 ! i)" using assms(3) by (simp add: defaults_check(1)[OF assms(1)])
  have w: "Web (checks ?s2 ! i) = Web (checks s ! i)"
    by (simp add: defaults_check(1)[OF assms(1)])
  have c: "count_ev is_probe ?s2 = count_ev is_probe s" by (simp add: defaults_def)
  show ?thesis
  proof (cases "Web (checks s ! i) = []")
    case True
    from shell_loop_probes[OF l t, of n e] c True show ?thesis
      by (simp add: worker_valid[OF assms(1,2)])
  next
    case False
    with assms(4) w have "NewRequest e (Web (checks ?s2 ! i)) = None" by simp
    from web_loop_probes[OF l t this, of n] c False show ?thesis
      by (simp add: worker_valid[OF assms(1,2)])
  qed
qed

text \<open>
  C3. A worker given an entry with both or neither of \<^verbatim>\<open>web\<close> and \<^verbatim>\<open>shell\<close> returns at
  once, whatever the observation window: it has written one warning, set the entry's
  \<^verbatim>\<open>Failed\<close> flag and nothing else, and has run no probe and no pause. No other
  check is touched. The other checks are served as before: the worker of a valid check,
  started after the refusal, is still in its loop after any number of rounds and has
  probed at least once in each of them (given \<^verbatim>\<open>tries\<close> is not negative and a web
  check's URL makes a request), and \<^verbatim>\<open>/status\<close> answers with all checks, the refused one
  as failed.
\<close>

theorem invalid_check_never_polled:
  assumes "i < length (checks s)" and "invalid (checks s ! i)"
  shows "fst (worker n e i s)
     \<and> worker n e i s = worker 0 e i s
     \<and> checks (snd (worker n e i s)) = (checks s)[i := (checks s ! i)\<lparr>Failed := True\<rparr>]
     \<and> Failed (checks (snd (worker n e i s)) ! i)
     \<and> (\<exists>line. trace (snd (worker n e i s)) = trace s @ [Ev_Stderr line])
     \<and> count_ev is_probe (snd (worker n e i s)) = count_ev is_probe s
     \<and> count_ev is_sleep (snd (worker n e i s)) = count_ev is_sleep s
     \<and> (\<forall>j. j \<noteq> i \<longrightarrow> checks (snd (worker n e i s)) ! j = checks s ! j)
     \<and> (\<forall>j m. j < length (checks s) \<and> \<not> invalid (checks s ! j)
            \<longrightarrow> \<not> fst (worker m e j (snd (worker n e i s))))
     \<and> (\<forall>j m. j < length (checks s) \<and> \<not> invalid (checks s ! j) \<and> 0 \<le> Tries (checks s ! j)
              \<and> (Web (checks s ! j) \<noteq> [] \<longrightarrow> NewRequest e (Web (checks s ! j)) = None)
            \<longrightarrow> count_ev is_probe (snd (worker n e i s)) + m
                  \<le> count_ev is_probe (snd (worker m e j (snd (worker n e i s)))))
     \<and> (Header_Get (Header r) ''If-None-Match'' \<noteq> modified s \<longrightarrow>
          w_status (getChecks e new_ResponseWriter r (snd (worker n e i s))) = Some 200
          \<and> w_body (getChecks e new_ResponseWriter r (snd (worker n e i s)))
              = json_Marshal (short_escapes e) (checks_nil s)
                  ((checks s)[i := (checks s ! i)\<lparr>Failed := True\<rparr>]))"
proof -
  let ?s' = "snd (worker n e i s)"
  from worker_invalid[OF assms(2)] obtain line where
    w: "worker n e i s = (True, set_check i (\<lambda>c. c\<lparr>Failed := True\<rparr>) (Fprint_Stderr line s))"
    by blast
  have same: "worker n e i s = worker 0 e i s"
    using assms(2) by (auto simp: worker_def invalid_def Let_def)
  have valid: "j < length (checks ?s') \<and> \<not> invalid (checks ?s' ! j) \<and> checks ?s' ! j = checks s ! j"
    if "j < length (checks s)" "\<not> invalid (checks s ! j)" for j
  proof -
    from that assms(2) have "j \<noteq> i" by auto
    with that show ?thesis by (simp add: w Fprint_Stderr_def)
  qed
  have others: "\<not> fst (worker m e j ?s')"
    if "j < length (checks s)" "\<not> invalid (checks s ! j)" for j m
  proof -
    from valid[OF that] have "j < length (checks ?s')" "\<not> invalid (checks ?s' ! j)"
      by blast+
    from worker_valid[OF this] show ?thesis by simp
  qed
  have polled: "count_ev is_probe ?s' + m \<le> count_ev is_probe (snd (worker m e j ?s'))"
    if "j < length (checks s) \<and> \<not> invalid (checks s ! j) \<and> 0 \<le> Tries (checks s ! j)
          \<and> (Web (checks s ! j) \<noteq> [] \<longrightarrow> NewRequest e (Web (checks s ! j)) = None)" for j m
  proof -
    from that have v: "j < length (checks ?s')" "\<not> invalid (checks ?s' ! j)"
      and c: "checks ?s' ! j = checks s ! j" using valid[of j] by blast+
    from that c have "0 \<le> Tries (checks ?s' ! j)"
      "Web (checks ?s' ! j) \<noteq> [] \<longrightarrow> NewRequest e (Web (checks ?s' ! j)) = None" by simp_all
    with v show ?thesis by (rule worker_probes)
  qed
  have served: "w_status (getChecks e new_ResponseWriter r ?s') = Some 200
      \<and> w_body (getChecks e new_ResponseWriter r ?s')
          = json_Marshal (short_escapes e) (checks_nil s)
              ((checks s)[i := (checks s ! i)\<lparr>Failed := True\<rparr>])"
    if "Header_Get (Header r) ''If-None-Match'' \<noteq> modified s"
    using that
    by (simp add: w Fprint_Stderr_def getChecks_def displayJSON_def Let_def h_Set_def
        WriteHeader_def Write_def new_ResponseWriter_def)
  have "fst (worker n e i s)
     \<and> checks ?s' = (checks s)[i := (checks s ! i)\<lparr>Failed := True\<rparr>]
     \<and> Failed (checks ?s' ! i)
     \<and> (\<exists>line. trace ?s' = trace s @ [Ev_Stderr line])
     \<and> count_ev is_probe ?s' = count_ev is_probe s
     \<and> count_ev is_sleep ?s' = count_ev is_sleep s
     \<and> (\<forall>j. j \<noteq> i \<longrightarrow> checks ?s' ! j = checks s ! j)"
    using assms(1) by (simp add: w Fprint_Stderr_def)
  with same others polled served show ?thesis by blast
qed

theorem invalid_check_never_polled_witness:
  \<open>fst (worker 5 ok_env 0 refused_first)
   \<and> Failed (checks (snd (worker 5 ok_env 0 refused_first)) ! 0)
   \<and> count_ev is_probe (snd (worker 5 ok_env 0 refused_first)) = 0
   \<and> \<not> fst (worker 3 ok_env 1 (snd (worker 5 ok_env 0 refused_first)))
   \<and> 3 \<le> count_ev is_probe (snd (worker 3 ok_env 1 (snd (worker 5 ok_env 0 refused_first))))
   \<and> w_body (getChecks ok_env new_ResponseWriter (GET_status [])
        (snd (worker 5 ok_env 0 refused_first)))
     = ''[{"failed":true},{"web":"http://localhost/","failed":false}]''\<close>
proof -
  have l: "0 < length (checks refused_first)"
    by code_simp
  have i: "invalid (checks refused_first ! 0)"
    by code_simp
  have z: "count_ev is_probe refused_first = 0"
    by code_simp
  have v: "1 < length (checks refused_first) \<and> \<not> invalid (checks refused_first ! 1)
      \<and> 0 \<le> Tries (checks refused_first ! 1)
      \<and> (Web (checks refused_first ! 1) \<noteq> []
            \<longrightarrow> NewRequest ok_env (Web (checks refused_first ! 1)) = None)"
    by code_simp
  have h: "Header_Get (Header (GET_status [])) ''If-None-Match'' \<noteq> modified refused_first"
    by code_simp
  have j: \<open>json_Marshal (short_escapes ok_env) (checks_nil refused_first)
      ((checks refused_first)[0 := (checks refused_first ! 0)\<lparr>Failed := True\<rparr>])
    = ''[{"failed":true},{"web":"http://localhost/","failed":false}]''\<close>
    by code_simp
  note T = invalid_check_never_polled [OF l i, of 5 ok_env "GET_status []"]
  from T have a: "fst (worker 5 ok_env 0 refused_first)"
    by blast
  from T have b: "Failed (checks (snd (worker 5 ok_env 0 refused_first)) ! 0)"
    by blast
  from T have "count_ev is_probe (snd (worker 5 ok_env 0 refused_first))
    = count_ev is_probe refused_first"
    by blast
  with z have c: "count_ev is_probe (snd (worker 5 ok_env 0 refused_first)) = 0"
    by simp
  from T v have d: "\<not> fst (worker 3 ok_env 1 (snd (worker 5 ok_env 0 refused_first)))"
    by blast
  from T v have "count_ev is_probe (snd (worker 5 ok_env 0 refused_first)) + 3
    \<le> count_ev is_probe (snd (worker 3 ok_env 1 (snd (worker 5 ok_env 0 refused_first))))"
    by blast
  with c have f: "3 \<le> count_ev is_probe
      (snd (worker 3 ok_env 1 (snd (worker 5 ok_env 0 refused_first))))"
    by simp
  from T h have "w_body (getChecks ok_env new_ResponseWriter (GET_status [])
        (snd (worker 5 ok_env 0 refused_first)))
     = json_Marshal (short_escapes ok_env) (checks_nil refused_first)
         ((checks refused_first)[0 := (checks refused_first ! 0)\<lparr>Failed := True\<rparr>])"
    by blast
  with j have g: \<open>w_body (getChecks ok_env new_ResponseWriter (GET_status [])
        (snd (worker 5 ok_env 0 refused_first)))
     = ''[{"failed":true},{"web":"http://localhost/","failed":false}]''\<close>
    by simp
  from a b c d f g show ?thesis by blast
qed

text \<open>
  C10. Refusing an entry changes its \<^verbatim>\<open>Failed\<close> flag only: \<^verbatim>\<open>Since\<close> keeps its value
  (empty for a check as \<^verbatim>\<open>main\<close> loads it), and the change token is not refreshed, so
  a request to \<^verbatim>\<open>/status\<close> that carries the token from before is still answered 304
  with an empty body, although the entry is now failed.
\<close>

theorem invalid_check_keeps_token:
  assumes "i < length (checks s)" and "invalid (checks s ! i)"
    and "Header_Get (Header r) ''If-None-Match'' = modified s"
  shows "checks (snd (worker n e i s)) = (checks s)[i := (checks s ! i)\<lparr>Failed := True\<rparr>]
     \<and> Failed (checks (snd (worker n e i s)) ! i)
     \<and> Since (checks (snd (worker n e i s)) ! i) = Since (checks s ! i)
     \<and> modified (snd (worker n e i s)) = modified s
     \<and> count_ev is_refresh (snd (worker n e i s)) = count_ev is_refresh s
     \<and> w_status (getChecks e new_ResponseWriter r (snd (worker n e i s))) = Some 304
     \<and> w_body (getChecks e new_ResponseWriter r (snd (worker n e i s))) = []"
proof -
  from worker_invalid[OF assms(2)] obtain line where
    w: "worker n e i s = (True, set_check i (\<lambda>c. c\<lparr>Failed := True\<rparr>) (Fprint_Stderr line s))"
    by blast
  have m: "modified (snd (worker n e i s)) = modified s"
    by (simp add: w Fprint_Stderr_def)
  from assms(3) m
  have "Header_Get (Header r) ''If-None-Match'' = modified (snd (worker n e i s))" by simp
  then have "w_status (getChecks e new_ResponseWriter r (snd (worker n e i s))) = Some 304
     \<and> w_body (getChecks e new_ResponseWriter r (snd (worker n e i s))) = []"
    by (simp add: getChecks_def displayJSON_def Let_def h_Set_def WriteHeader_def
        new_ResponseWriter_def)
  with assms(1) m show ?thesis
    by (simp add: w Fprint_Stderr_def)
qed

theorem invalid_check_keeps_token_witness:
  \<open>Failed (checks (snd (worker 1 ok_env 0 (main_start ok_env (Some [echo_ok\<lparr>Web := ''http://x/''\<rparr>])))) ! 0)
   \<and> Since (checks (snd (worker 1 ok_env 0 (main_start ok_env (Some [echo_ok\<lparr>Web := ''http://x/''\<rparr>])))) ! 0)
       = []
   \<and> modified (snd (worker 1 ok_env 0 (main_start ok_env (Some [echo_ok\<lparr>Web := ''http://x/''\<rparr>]))))
       = started (main_start ok_env (Some [echo_ok\<lparr>Web := ''http://x/''\<rparr>]))
   \<and> w_status (getChecks ok_env new_ResponseWriter (GET_status [''W/"1000"''])
        (snd (worker 1 ok_env 0 (main_start ok_env (Some [echo_ok\<lparr>Web := ''http://x/''\<rparr>]))))) = Some 304\<close>
proof -
  have l: "0 < length (checks (main_start ok_env (Some [echo_ok\<lparr>Web := ''http://x/''\<rparr>])))"
    by code_simp
  have i: "invalid (checks (main_start ok_env (Some [echo_ok\<lparr>Web := ''http://x/''\<rparr>])) ! 0)"
    by code_simp
  have h: \<open>Header_Get (Header (GET_status [''W/"1000"''])) ''If-None-Match''
      = modified (main_start ok_env (Some [echo_ok\<lparr>Web := ''http://x/''\<rparr>]))\<close>
    by code_simp
  have s: "Since (checks (main_start ok_env (Some [echo_ok\<lparr>Web := ''http://x/''\<rparr>])) ! 0) = []"
    by code_simp
  have m: "modified (main_start ok_env (Some [echo_ok\<lparr>Web := ''http://x/''\<rparr>]))
      = started (main_start ok_env (Some [echo_ok\<lparr>Web := ''http://x/''\<rparr>]))"
    by code_simp
  note T = invalid_check_keeps_token [OF l i h, of 1 ok_env]
  from T have a: "Failed (checks (snd (worker 1 ok_env 0
      (main_start ok_env (Some [echo_ok\<lparr>Web := ''http://x/''\<rparr>])))) ! 0)"
    by blast
  from T have b: "Since (checks (snd (worker 1 ok_env 0
      (main_start ok_env (Some [echo_ok\<lparr>Web := ''http://x/''\<rparr>])))) ! 0)
    = Since (checks (main_start ok_env (Some [echo_ok\<lparr>Web := ''http://x/''\<rparr>])) ! 0)"
    by blast
  from T have c: "modified (snd (worker 1 ok_env 0
      (main_start ok_env (Some [echo_ok\<lparr>Web := ''http://x/''\<rparr>]))))
    = modified (main_start ok_env (Some [echo_ok\<lparr>Web := ''http://x/''\<rparr>]))"
    by blast
  from T have d: \<open>w_status (getChecks ok_env new_ResponseWriter (GET_status [''W/"1000"''])
      (snd (worker 1 ok_env 0 (main_start ok_env (Some [echo_ok\<lparr>Web := ''http://x/''\<rparr>])))))
    = Some 304\<close>
    by blast
  from a b c d s m show ?thesis by simp
qed

text \<open>
  C6, as the code has it. A worker that accepts its check (exactly one of \<^verbatim>\<open>web\<close> and
  \<^verbatim>\<open>shell\<close> set) replaces an unset (zero) \<^verbatim>\<open>tries\<close> by 1, an unset interval by 30
  seconds and, for a web check, an unset expected status by 200; any other value is
  used as configured. So \<^verbatim>\<open>tries\<close> is at least 1 whenever the configured value is
  not negative, and every round of a check with no interval ends with a pause of
  30 seconds.
\<close>

theorem polling_defaults:
  assumes "i < length (checks s)" and "\<not> invalid (checks s ! i)"
  shows "Tries (checks (snd (worker n e i s)) ! i)
           = (if Tries (checks s ! i) = 0 then 1 else Tries (checks s ! i))
     \<and> (0 \<le> Tries (checks s ! i) \<longrightarrow> 1 \<le> Tries (checks (snd (worker n e i s)) ! i))
     \<and> Repeat (checks (snd (worker n e i s)) ! i)
           = (if Repeat (checks s ! i) = 0 then 30 else Repeat (checks s ! i))
     \<and> (Repeat (checks s ! i) = 0 \<longrightarrow>
          last (trace (snd (worker (Suc n) e i s))) = Ev_Sleep 30000000000)
     \<and> (Web (checks s ! i) \<noteq> [] \<longrightarrow>
          Return (checks (snd (worker n e i s)) ! i)
            = (if Return (checks s ! i) = 0 then 200 else Return (checks s ! i)))"
proof -
  note c = config_of_fields[OF worker_config[OF assms, of n e]]
  have s30: "seconds 30 = 30000000000" by code_simp
  from c(1-3) worker_pause[OF assms, of n e] show ?thesis
    by (auto simp: defaults_check(1)[OF assms(1)] s30)
qed

theorem polling_defaults_witness:
  "Tries (checks (snd (worker 2 ok_env 1 (main_start ok_env (Some [echo_ok, web_ok])))) ! 1) = 1
   \<and> Repeat (checks (snd (worker 2 ok_env 1 (main_start ok_env (Some [echo_ok, web_ok])))) ! 1) = 30
   \<and> Return (checks (snd (worker 2 ok_env 1 (main_start ok_env (Some [echo_ok, web_ok])))) ! 1) = 200
   \<and> last (trace (snd (worker (Suc 1) ok_env 1 (main_start ok_env (Some [echo_ok, web_ok])))))
       = Ev_Sleep 30000000000"
proof -
  have l: "1 < length (checks (main_start ok_env (Some [echo_ok, web_ok])))"
    by code_simp
  have v: "\<not> invalid (checks (main_start ok_env (Some [echo_ok, web_ok])) ! 1)"
    by code_simp
  have f: "Tries (checks (main_start ok_env (Some [echo_ok, web_ok])) ! 1) = 0"
    "Repeat (checks (main_start ok_env (Some [echo_ok, web_ok])) ! 1) = 0"
    "Return (checks (main_start ok_env (Some [echo_ok, web_ok])) ! 1) = 0"
    "Web (checks (main_start ok_env (Some [echo_ok, web_ok])) ! 1) \<noteq> []"
    by code_simp+
  note T = polling_defaults [OF l v, of 2 ok_env]
  note U = polling_defaults [OF l v, of 1 ok_env]
  from T f have a: "Tries (checks (snd (worker 2 ok_env 1
      (main_start ok_env (Some [echo_ok, web_ok])))) ! 1) = 1"
    by simp
  from T f have b: "Repeat (checks (snd (worker 2 ok_env 1
      (main_start ok_env (Some [echo_ok, web_ok])))) ! 1) = 30"
    by simp
  from T f have c: "Return (checks (snd (worker 2 ok_env 1
      (main_start ok_env (Some [echo_ok, web_ok])))) ! 1) = 200"
    by simp
  from U f have d: "last (trace (snd (worker (Suc 1) ok_env 1
      (main_start ok_env (Some [echo_ok, web_ok]))))) = Ev_Sleep 30000000000"
    by blast
  from a b c d show ?thesis by blast
qed

text \<open>
  The claim as the specification words it, a minimum of 1 for \<^verbatim>\<open>tries\<close>, fails: a
  configured \<^verbatim>\<open>tries: -1\<close> is kept as it is.
\<close>

theorem tries_minimum_counterexample:
  "\<not> 1 \<le> Tries (checks (snd (worker 1 ok_env 0 (main_start ok_env (Some [echo_ok\<lparr>Tries := - 1\<rparr>])))) ! 0)"
  by code_simp

subsection \<open>What the status API shows of a check\<close>

lemma shell_verdict_ok:
  assumes "\<forall>t. snd (CombinedOutput e t ''sh'' [''-c'', Shell (checks s ! i)]) = None"
    and "Match (checks s ! i) = []"
  shows "\<not> shell_verdict e i sl s"
proof -
  from assms(1) have "snd (CombinedOutput e (clock s) ''sh'' [''-c'', Shell (checks s ! i)]) = None"
    by blast
  then obtain o1 where "CombinedOutput e (clock s) ''sh'' [''-c'', Shell (checks s ! i)] = (o1, None)"
    by (cases "CombinedOutput e (clock s) ''sh'' [''-c'', Shell (checks s ! i)]") auto
  with assms(2) show ?thesis
    by (simp add: shell_verdict_def shell_attempts.simps[of _ _ _ 0] exec_CombinedOutput_def)
qed

lemma shell_loop_ok:
  "\<forall>t. snd (CombinedOutput e t ''sh'' [''-c'', Shell (checks s ! i)]) = None \<Longrightarrow>
   Match (checks s ! i) = [] \<Longrightarrow> \<not> Failed (checks s ! i) \<Longrightarrow>
     list_all (\<lambda>v. v = False) (shell_verdicts n e i name sl rp s)"
proof (induction n arbitrary: s)
  case 0
  then show ?case by simp
next
  case (Suc n)
  let ?s1 = "time_Sleep rp (shell e i name sl s)"
  from shell_verdict_ok[OF Suc.prems(1,2)] have v: "\<not> shell_verdict e i sl s" .
  with Suc.prems(3) have "shell_verdict e i sl s = Failed (checks s ! i)" by simp
  from shell_quiet[OF this] have "checks ?s1 = checks s" by (simp add: quiet_def time_Sleep_def)
  with Suc.prems have "list_all (\<lambda>v. v = False) (shell_verdicts n e i name sl rp ?s1)"
    by (intro Suc.IH) simp_all
  with v show ?case by simp
qed

lemma main_start_simps:
  "checks (main_start e (Some cs)) = map (\<lambda>c. c\<lparr>Failed := False, Since := []\<rparr>) cs"
  "checks (main_start e None) = []"
  "checks_nil (main_start e config) = (config = None)"
  "modified (main_start e config) = etag (UnixNano e 0)"
  "started (main_start e config) = etag (UnixNano e 0)"
  "trace (main_start e config) = [Ev_Now]"
  by (simp_all add: main_start_def time_Now_def)

lemma json_echo_ok:
  assumes "Name c = []" "Web c = []" "Shell c = ''echo ok''" "\<not> Failed c" "Since c = []"
  shows \<open>json_Marshal short False [c] = ''[{"shell":"echo ok","failed":false}]''\<close>
  using assms
  by (simp add: json_Marshal_def json_Check_def json_key_def json_string_def json_escape_def
      byte_def FormatBool_def)

text \<open>
  C5, as the code has it. With one shell check \<^verbatim>\<open>echo ok\<close> that has no name and no
  pattern and whose command always succeeds, after any number of polling rounds a
  request to \<^verbatim>\<open>/status\<close> that does not carry the current token is answered 200 with
  the body \<^verbatim>\<open>[{"shell":"echo ok","failed":false}]\<close>: no \<^verbatim>\<open>since\<close>, and no \<^verbatim>\<open>name\<close>
  either, the probe target standing under \<^verbatim>\<open>shell\<close>. The worker keeps the default
  name in a variable of its own and never writes it into the check.
\<close>

theorem echo_ok_status:
  assumes "\<forall>t. snd (CombinedOutput e t ''sh'' [''-c'', ''echo ok'']) = None"
    and "Name c = []" and "Web c = []" and "Shell c = ''echo ok''" and "Match c = []"
    and "Header_Get (Header r) ''If-None-Match'' \<noteq> modified (main_start e (Some [c]))"
  shows \<open>w_status (getChecks e new_ResponseWriter r (snd (worker n e 0 (main_start e (Some [c]))))) = Some 200
     \<and> w_body (getChecks e new_ResponseWriter r (snd (worker n e 0 (main_start e (Some [c])))))
         = ''[{"shell":"echo ok","failed":false}]''\<close>
proof -
  let ?s0 = "main_start e (Some [c])"
  let ?s2 = "defaults 0 ?s0"
  let ?name = "display_name (checks ?s0 ! 0)"
  let ?sl = "seconds (Sleep (checks ?s0 ! 0))"
  let ?rp = "seconds (Repeat (checks ?s2 ! 0))"
  have l: "0 < length (checks ?s0)" by (simp add: main_start_simps)
  have v: "\<not> invalid (checks ?s0 ! 0)" using assms(3,4) by (simp add: main_start_simps invalid_def)
  have w: "snd (worker n e 0 ?s0) = shell_loop n e 0 ?name ?sl ?rp ?s2"
    using assms(3) by (simp add: worker_valid[OF l v] main_start_simps)
  have c2: "checks ?s2 = [checks ?s2 ! 0]"
    by (simp add: defaults_def main_start_simps)
  have f: "Name (checks ?s2 ! 0) = []" "Web (checks ?s2 ! 0) = []"
    "Shell (checks ?s2 ! 0) = ''echo ok''" "Match (checks ?s2 ! 0) = []"
    "\<not> Failed (checks ?s2 ! 0)" "Since (checks ?s2 ! 0) = []"
    using assms(2-5) by (simp_all add: defaults_check(1)[OF l] main_start_simps)
  have "list_all (\<lambda>v. v = False) (shell_verdicts n e 0 ?name ?sl ?rp ?s2)"
    using assms(1) f by (intro shell_loop_ok) simp_all
  with f(5) have "quiet ?s2 (shell_loop n e 0 ?name ?sl ?rp ?s2)"
    by (intro shell_loop_quiet[where b = False]) simp_all
  then have q: "checks (snd (worker n e 0 ?s0)) = checks ?s2"
    "modified (snd (worker n e 0 ?s0)) = modified ?s0"
    by (simp_all add: w quiet_def defaults_check[OF l])
  have nn: "\<not> checks_nil (snd (worker n e 0 ?s0))"
    by (simp add: worker_nil main_start_simps)
  have j: \<open>json_Marshal (short_escapes e) False (checks ?s2)
      = ''[{"shell":"echo ok","failed":false}]''\<close>
    by (subst c2) (rule json_echo_ok[OF f(1-3,5,6)])
  from assms(6) q j nn show ?thesis
    by (simp add: getChecks_def displayJSON_def Let_def h_Set_def WriteHeader_def Write_def
        new_ResponseWriter_def)
qed

theorem echo_ok_status_witness:
  \<open>w_status (getChecks ok_env new_ResponseWriter (GET_status [])
       (snd (worker 1 ok_env 0 (main_start ok_env (Some [echo_ok]))))) = Some 200
   \<and> w_body (getChecks ok_env new_ResponseWriter (GET_status [])
       (snd (worker 1 ok_env 0 (main_start ok_env (Some [echo_ok])))))
     = ''[{"shell":"echo ok","failed":false}]''\<close>
proof -
  have a: "\<forall>t. snd (CombinedOutput ok_env t ''sh'' [''-c'', ''echo ok'']) = None"
    by (simp add: ok_env_def)
  have f: "Name echo_ok = []" "Web echo_ok = []" "Shell echo_ok = ''echo ok''" "Match echo_ok = []"
    by (simp_all add: echo_ok_def)
  have h: "Header_Get (Header (GET_status [])) ''If-None-Match''
      \<noteq> modified (main_start ok_env (Some [echo_ok]))"
    by code_simp
  from echo_ok_status [OF a f h, of 1] show ?thesis .
qed

text \<open>
  The body the specification gives for this scenario, with the name defaulted to the
  probe target and no \<^verbatim>\<open>shell\<close> field, is not what the handler writes.
\<close>

theorem echo_ok_status_counterexample:
  \<open>w_body (getChecks ok_env new_ResponseWriter (GET_status [])
       (snd (worker 1 ok_env 0 (main_start ok_env (Some [echo_ok])))))
     \<noteq> ''[{"name":"echo ok","failed":false}]''\<close>
  by code_simp

subsection \<open>The callback\<close>

lemma shell_msg_verdict:
  "(shell_verdict e i sl s \<longrightarrow> (\<exists>d. shell_msg e i sl s = Some d))
   \<and> (\<not> shell_verdict e i sl s \<longrightarrow> shell_msg e i sl s = None)"
  by (cases "shell_attempts e (checks s ! i) sl 0 [] None s")
     (auto simp: shell_verdict_def shell_msg_def)

lemma web_msg_verdict:
  "(web_verdict e i sl s \<longrightarrow> (\<exists>d. web_msg e i sl s = Some d))
   \<and> (\<not> web_verdict e i sl s \<longrightarrow> web_msg e i sl s = None)"
  by (cases "web_attempts e (checks s ! i) sl 0 None s")
     (auto simp: web_verdict_def web_msg_def)

lemma alert_args_simps:
  "alert_args name (Some d) True = [''true'', name, d]"
  "alert_args name None False = [''false'', name]"
  by (simp_all add: alert_args_def FormatBool_def)

lemma alert_trace:
  "trace (alert e c name m f s) =
     trace s @ Ev_Exec (Alert c) (alert_args name m f)
       # (case CombinedOutput e (clock s) (Alert c) (alert_args name m f) of
            (out, None) \<Rightarrow> []
          | (out, Some er) \<Rightarrow>
              [Ev_Stderr (''<3>'' @ Alert c @ '' failed\<newline>'' @ out @ er @ ''\<newline>'')])"
  by (simp add: alert_eq split: prod.splits option.splits)

text \<open>What one more round of a worker adds to the callback runs.\<close>

lemma worker_round_alerts:
  assumes "i < length (checks s)" and "\<not> invalid (checks s ! i)"
  shows "alerts (snd (worker (Suc n) e i s)) =
     alerts (snd (worker n e i s))
     @ (if Web (checks s ! i) = [] then
          (if shell_verdict e i (seconds (Sleep (checks s ! i))) (snd (worker n e i s))
                \<noteq> Failed (checks (snd (worker n e i s)) ! i)
              \<and> Alert (checks s ! i) \<noteq> []
           then [Ev_Exec (Alert (checks s ! i))
                   (alert_args (display_name (checks s ! i))
                      (shell_msg e i (seconds (Sleep (checks s ! i))) (snd (worker n e i s)))
                      (shell_verdict e i (seconds (Sleep (checks s ! i))) (snd (worker n e i s))))]
           else [])
        else
          (if web_verdict e i (seconds (Sleep (checks s ! i))) (snd (worker n e i s))
                \<noteq> Failed (checks (snd (worker n e i s)) ! i)
              \<and> Alert (checks s ! i) \<noteq> []
           then [Ev_Exec (Alert (checks s ! i))
                   (alert_args (display_name (checks s ! i))
                      (web_msg e i (seconds (Sleep (checks s ! i))) (snd (worker n e i s)))
                      (web_verdict e i (seconds (Sleep (checks s ! i))) (snd (worker n e i s))))]
           else []))"
proof -
  let ?c = "checks s ! i"
  let ?sl = "seconds (Sleep ?c)"
  let ?rp = "seconds (Repeat (checks (defaults i s) ! i))"
  have a: "Alert (checks (snd (worker n e i s)) ! i) = Alert ?c"
    using config_of_fields(10)[OF worker_config[OF assms, of n e]]
    by (simp add: defaults_check(1)[OF assms(1)])
  show ?thesis
  proof (cases "Web ?c = []")
    case True
    let ?sn = "shell_loop n e i (display_name ?c) ?sl ?rp (defaults i s)"
    have wn: "snd (worker n e i s) = ?sn"
      using True by (simp add: worker_valid[OF assms])
    have wS: "snd (worker (Suc n) e i s) = time_Sleep ?rp (shell e i (display_name ?c) ?sl ?sn)"
      using True by (simp add: worker_valid[OF assms] shell_loop_snoc del: shell_loop.simps)
    from a have "Alert (checks ?sn ! i) = Alert ?c" by (simp add: wn)
    then show ?thesis
      by (simp add: True wn wS shell_alerts time_Sleep_def)
  next
    case False
    let ?sn = "web_loop n e i (display_name ?c) ?sl ?rp (defaults i s)"
    have wn: "snd (worker n e i s) = ?sn"
      using False by (simp add: worker_valid[OF assms])
    have wS: "snd (worker (Suc n) e i s) = time_Sleep ?rp (web e i (display_name ?c) ?sl ?sn)"
      using False by (simp add: worker_valid[OF assms] web_loop_snoc del: web_loop.simps)
    from a have "Alert (checks ?sn ! i) = Alert ?c" by (simp add: wn)
    then show ?thesis
      by (simp add: False wn wS web_alerts time_Sleep_def)
  qed
qed

text \<open>
  C9. For a check with a callback that its worker accepts, every round of the worker
  that takes the check from up to down runs the callback once with the arguments
  \<^verbatim>\<open>true\<close>, the check's display name (its name, or the probe target when it has no
  name) and the diagnostic; a round that takes it from down to up runs it once with
  \<^verbatim>\<open>false\<close> and the display name only; a round without a transition does not run it.
  This holds for shell and for web checks. Whatever the callback returns, \<^verbatim>\<open>alert\<close>
  leaves the checks and the change token as they are, and when the command fails its
  output and error go to standard error in one line.
\<close>

theorem alert_on_transition:
  assumes "i < length (checks s)" and "\<not> invalid (checks s ! i)"
    and "Alert (checks s ! i) \<noteq> []"
  shows
    "(let c = checks s ! i; sl = seconds (Sleep c); name = display_name c;
          before = snd (worker n e i s); after = snd (worker (Suc n) e i s)
      in (Web c = [] \<longrightarrow>
            (shell_verdict e i sl before \<and> \<not> Failed (checks before ! i) \<longrightarrow>
               (\<exists>d. shell_msg e i sl before = Some d
                  \<and> alerts after = alerts before @ [Ev_Exec (Alert c) [''true'', name, d]]))
            \<and> (\<not> shell_verdict e i sl before \<and> Failed (checks before ! i) \<longrightarrow>
                 alerts after = alerts before @ [Ev_Exec (Alert c) [''false'', name]])
            \<and> (shell_verdict e i sl before = Failed (checks before ! i) \<longrightarrow>
                 alerts after = alerts before))
         \<and> (Web c \<noteq> [] \<longrightarrow>
            (web_verdict e i sl before \<and> \<not> Failed (checks before ! i) \<longrightarrow>
               (\<exists>d. web_msg e i sl before = Some d
                  \<and> alerts after = alerts before @ [Ev_Exec (Alert c) [''true'', name, d]]))
            \<and> (\<not> web_verdict e i sl before \<and> Failed (checks before ! i) \<longrightarrow>
                 alerts after = alerts before @ [Ev_Exec (Alert c) [''false'', name]])
            \<and> (web_verdict e i sl before = Failed (checks before ! i) \<longrightarrow>
                 alerts after = alerts before)))
     \<and> checks (alert e c0 nm m f s0) = checks s0
     \<and> modified (alert e c0 nm m f s0) = modified s0
     \<and> (\<forall>out er. CombinedOutput e (clock s0) (Alert c0) (alert_args nm m f) = (out, Some er) \<longrightarrow>
          trace (alert e c0 nm m f s0)
            = trace s0 @ [Ev_Exec (Alert c0) (alert_args nm m f),
                Ev_Stderr (''<3>'' @ Alert c0 @ '' failed\<newline>'' @ out @ er @ ''\<newline>'')])"
proof -
  let ?c = "checks s ! i"
  let ?sl = "seconds (Sleep ?c)"
  let ?name = "display_name ?c"
  let ?before = "snd (worker n e i s)"
  let ?after = "snd (worker (Suc n) e i s)"
  note R = worker_round_alerts[OF assms(1,2), of n e]
  have sh: "(shell_verdict e i ?sl ?before \<and> \<not> Failed (checks ?before ! i) \<longrightarrow>
               (\<exists>d. shell_msg e i ?sl ?before = Some d
                  \<and> alerts ?after = alerts ?before @ [Ev_Exec (Alert ?c) [''true'', ?name, d]]))
            \<and> (\<not> shell_verdict e i ?sl ?before \<and> Failed (checks ?before ! i) \<longrightarrow>
                 alerts ?after = alerts ?before @ [Ev_Exec (Alert ?c) [''false'', ?name]])
            \<and> (shell_verdict e i ?sl ?before = Failed (checks ?before ! i) \<longrightarrow>
                 alerts ?after = alerts ?before)"
    if w: "Web ?c = []"
  proof (intro conjI impI)
    assume a: "shell_verdict e i ?sl ?before \<and> \<not> Failed (checks ?before ! i)"
    with shell_msg_verdict[of e i ?sl ?before] obtain d
      where d: "shell_msg e i ?sl ?before = Some d" by blast
    from R w a assms(3) have "alerts ?after
        = alerts ?before @ [Ev_Exec (Alert ?c) [''true'', ?name, d]]"
      by (simp add: d alert_args_simps)
    with d show "\<exists>d. shell_msg e i ?sl ?before = Some d
        \<and> alerts ?after = alerts ?before @ [Ev_Exec (Alert ?c) [''true'', ?name, d]]"
      by blast
  next
    assume a: "\<not> shell_verdict e i ?sl ?before \<and> Failed (checks ?before ! i)"
    with shell_msg_verdict[of e i ?sl ?before] have "shell_msg e i ?sl ?before = None" by blast
    with R w a assms(3) show "alerts ?after
        = alerts ?before @ [Ev_Exec (Alert ?c) [''false'', ?name]]"
      by (simp add: alert_args_simps)
  next
    assume "shell_verdict e i ?sl ?before = Failed (checks ?before ! i)"
    with R w show "alerts ?after = alerts ?before" by simp
  qed
  have wb: "(web_verdict e i ?sl ?before \<and> \<not> Failed (checks ?before ! i) \<longrightarrow>
               (\<exists>d. web_msg e i ?sl ?before = Some d
                  \<and> alerts ?after = alerts ?before @ [Ev_Exec (Alert ?c) [''true'', ?name, d]]))
            \<and> (\<not> web_verdict e i ?sl ?before \<and> Failed (checks ?before ! i) \<longrightarrow>
                 alerts ?after = alerts ?before @ [Ev_Exec (Alert ?c) [''false'', ?name]])
            \<and> (web_verdict e i ?sl ?before = Failed (checks ?before ! i) \<longrightarrow>
                 alerts ?after = alerts ?before)"
    if w: "Web ?c \<noteq> []"
  proof (intro conjI impI)
    assume a: "web_verdict e i ?sl ?before \<and> \<not> Failed (checks ?before ! i)"
    with web_msg_verdict[of e i ?sl ?before] obtain d
      where d: "web_msg e i ?sl ?before = Some d" by blast
    from R w a assms(3) have "alerts ?after
        = alerts ?before @ [Ev_Exec (Alert ?c) [''true'', ?name, d]]"
      by (simp add: d alert_args_simps)
    with d show "\<exists>d. web_msg e i ?sl ?before = Some d
        \<and> alerts ?after = alerts ?before @ [Ev_Exec (Alert ?c) [''true'', ?name, d]]"
      by blast
  next
    assume a: "\<not> web_verdict e i ?sl ?before \<and> Failed (checks ?before ! i)"
    with web_msg_verdict[of e i ?sl ?before] have "web_msg e i ?sl ?before = None" by blast
    with R w a assms(3) show "alerts ?after
        = alerts ?before @ [Ev_Exec (Alert ?c) [''false'', ?name]]"
      by (simp add: alert_args_simps)
  next
    assume "web_verdict e i ?sl ?before = Failed (checks ?before ! i)"
    with R w show "alerts ?after = alerts ?before" by simp
  qed
  have al: "\<forall>out er. CombinedOutput e (clock s0) (Alert c0) (alert_args nm m f) = (out, Some er) \<longrightarrow>
          trace (alert e c0 nm m f s0)
            = trace s0 @ [Ev_Exec (Alert c0) (alert_args nm m f),
                Ev_Stderr (''<3>'' @ Alert c0 @ '' failed\<newline>'' @ out @ er @ ''\<newline>'')]"
    by (simp add: alert_trace)
  from sh wb al show ?thesis
    unfolding Let_def by simp
qed

theorem alert_on_transition_witness:
  "alerts (snd (worker 1 down_env 0 (main_start down_env (Some [alerting]))))
     = [Ev_Exec ''/bin/alert'' [''true'', ''disk'', ''boom\<newline>exit status 1'']]
   \<and> alerts (snd (worker 1 down_env 0 (main_start down_env (Some [alerting\<lparr>Name := []\<rparr>]))))
     = [Ev_Exec ''/bin/alert'' [''true'', ''df'', ''boom\<newline>exit status 1'']]
   \<and> alerts (snd (worker 1 down_env 0 (main_start down_env (Some [alerting_web\<lparr>Name := []\<rparr>]))))
     = [Ev_Exec ''/bin/alert''
          [''true'', ''http://localhost/'', ''http://localhost/ returned 500'']]
   \<and> alerts (snd (worker 1 ok_env 0 one_down))
     = [Ev_Exec ''/bin/alert'' [''true'', ''disk'', ''boom\<newline>exit status 1''],
        Ev_Exec ''/bin/alert'' [''false'', ''disk'']]
   \<and> trace (alert down_env alerting ''disk'' None False (main_start down_env (Some [alerting])))
     = [Ev_Now, Ev_Exec ''/bin/alert'' [''false'', ''disk''],
        Ev_Stderr ''<3>/bin/alert failed\<newline>exit status 2\<newline>'']"
proof -
  let ?a = "main_start down_env (Some [alerting])"
  let ?u = "main_start down_env (Some [alerting\<lparr>Name := []\<rparr>])"
  let ?w = "main_start down_env (Some [alerting_web\<lparr>Name := []\<rparr>])"
  have pa: "0 < length (checks ?a)" "\<not> invalid (checks ?a ! 0)" "Alert (checks ?a ! 0) \<noteq> []"
    by code_simp+
  have pu: "0 < length (checks ?u)" "\<not> invalid (checks ?u ! 0)" "Alert (checks ?u ! 0) \<noteq> []"
    by code_simp+
  have pw: "0 < length (checks ?w)" "\<not> invalid (checks ?w ! 0)" "Alert (checks ?w ! 0) \<noteq> []"
    by code_simp+
  have pd: "0 < length (checks one_down)" "\<not> invalid (checks one_down ! 0)"
    "Alert (checks one_down ! 0) \<noteq> []"
    by code_simp+
  note A = alert_on_transition [OF pa, where n = 0 and e = down_env and ?c0.0 = alerting
      and nm = "''disk''" and m = None and f = False and ?s0.0 = ?a, unfolded Let_def]
  note U = alert_on_transition [OF pu, where n = 0 and e = down_env, unfolded Let_def]
  note W = alert_on_transition [OF pw, where n = 0 and e = down_env, unfolded Let_def]
  note D = alert_on_transition [OF pd, where n = 0 and e = ok_env, unfolded Let_def]
  have fa: "Web (checks ?a ! 0) = []" "Alert (checks ?a ! 0) = ''/bin/alert''"
    "display_name (checks ?a ! 0) = ''disk''" "alerts (snd (worker 0 down_env 0 ?a)) = []"
    "shell_verdict down_env 0 (seconds (Sleep (checks ?a ! 0))) (snd (worker 0 down_env 0 ?a))
       \<and> \<not> Failed (checks (snd (worker 0 down_env 0 ?a)) ! 0)"
    "shell_msg down_env 0 (seconds (Sleep (checks ?a ! 0))) (snd (worker 0 down_env 0 ?a))
       = Some ''boom\<newline>exit status 1''"
    by code_simp+
  from A fa(1,5) obtain d where
    "shell_msg down_env 0 (seconds (Sleep (checks ?a ! 0))) (snd (worker 0 down_env 0 ?a)) = Some d"
    and "alerts (snd (worker (Suc 0) down_env 0 ?a)) = alerts (snd (worker 0 down_env 0 ?a))
      @ [Ev_Exec (Alert (checks ?a ! 0)) [''true'', display_name (checks ?a ! 0), d]]"
    by blast
  with fa have ra: "alerts (snd (worker 1 down_env 0 ?a))
      = [Ev_Exec ''/bin/alert'' [''true'', ''disk'', ''boom\<newline>exit status 1'']]"
    by simp
  have fu: "Web (checks ?u ! 0) = []" "Alert (checks ?u ! 0) = ''/bin/alert''"
    "display_name (checks ?u ! 0) = ''df''" "alerts (snd (worker 0 down_env 0 ?u)) = []"
    "shell_verdict down_env 0 (seconds (Sleep (checks ?u ! 0))) (snd (worker 0 down_env 0 ?u))
       \<and> \<not> Failed (checks (snd (worker 0 down_env 0 ?u)) ! 0)"
    "shell_msg down_env 0 (seconds (Sleep (checks ?u ! 0))) (snd (worker 0 down_env 0 ?u))
       = Some ''boom\<newline>exit status 1''"
    by code_simp+
  from U fu(1,5) obtain d where
    "shell_msg down_env 0 (seconds (Sleep (checks ?u ! 0))) (snd (worker 0 down_env 0 ?u)) = Some d"
    and "alerts (snd (worker (Suc 0) down_env 0 ?u)) = alerts (snd (worker 0 down_env 0 ?u))
      @ [Ev_Exec (Alert (checks ?u ! 0)) [''true'', display_name (checks ?u ! 0), d]]"
    by blast
  with fu have ru: "alerts (snd (worker 1 down_env 0 ?u))
      = [Ev_Exec ''/bin/alert'' [''true'', ''df'', ''boom\<newline>exit status 1'']]"
    by simp
  have fw: "Web (checks ?w ! 0) \<noteq> []" "Alert (checks ?w ! 0) = ''/bin/alert''"
    "display_name (checks ?w ! 0) = ''http://localhost/''"
    "alerts (snd (worker 0 down_env 0 ?w)) = []"
    "web_verdict down_env 0 (seconds (Sleep (checks ?w ! 0))) (snd (worker 0 down_env 0 ?w))
       \<and> \<not> Failed (checks (snd (worker 0 down_env 0 ?w)) ! 0)"
    "web_msg down_env 0 (seconds (Sleep (checks ?w ! 0))) (snd (worker 0 down_env 0 ?w))
       = Some ''http://localhost/ returned 500''"
    by code_simp+
  from W fw(1,5) obtain d where
    "web_msg down_env 0 (seconds (Sleep (checks ?w ! 0))) (snd (worker 0 down_env 0 ?w)) = Some d"
    and "alerts (snd (worker (Suc 0) down_env 0 ?w)) = alerts (snd (worker 0 down_env 0 ?w))
      @ [Ev_Exec (Alert (checks ?w ! 0)) [''true'', display_name (checks ?w ! 0), d]]"
    by blast
  with fw have rw: "alerts (snd (worker 1 down_env 0 ?w))
      = [Ev_Exec ''/bin/alert''
           [''true'', ''http://localhost/'', ''http://localhost/ returned 500'']]"
    by simp
  have fd: "Web (checks one_down ! 0) = []" "Alert (checks one_down ! 0) = ''/bin/alert''"
    "display_name (checks one_down ! 0) = ''disk''"
    "alerts (snd (worker 0 ok_env 0 one_down))
       = [Ev_Exec ''/bin/alert'' [''true'', ''disk'', ''boom\<newline>exit status 1'']]"
    "\<not> shell_verdict ok_env 0 (seconds (Sleep (checks one_down ! 0)))
         (snd (worker 0 ok_env 0 one_down))
       \<and> Failed (checks (snd (worker 0 ok_env 0 one_down)) ! 0)"
    by code_simp+
  from D fd(1,5) have "alerts (snd (worker (Suc 0) ok_env 0 one_down))
      = alerts (snd (worker 0 ok_env 0 one_down))
        @ [Ev_Exec (Alert (checks one_down ! 0)) [''false'', display_name (checks one_down ! 0)]]"
    by blast
  with fd have rd: "alerts (snd (worker 1 ok_env 0 one_down))
      = [Ev_Exec ''/bin/alert'' [''true'', ''disk'', ''boom\<newline>exit status 1''],
         Ev_Exec ''/bin/alert'' [''false'', ''disk'']]"
    by simp
  have co: "CombinedOutput down_env (clock ?a) (Alert alerting)
      (alert_args ''disk'' None False) = ([], Some ''exit status 2'')"
    by code_simp
  have tr: "trace ?a = [Ev_Now]"
    "Alert alerting = ''/bin/alert''" "alert_args ''disk'' None False = [''false'', ''disk'']"
    by code_simp+
  from A co have "trace (alert down_env alerting ''disk'' None False ?a)
      = trace ?a
        @ [Ev_Exec (Alert alerting) (alert_args ''disk'' None False),
           Ev_Stderr (''<3>'' @ Alert alerting @ '' failed\<newline>'' @ [] @ ''exit status 2''
             @ ''\<newline>'')]"
    by blast
  with tr have rf: "trace (alert down_env alerting ''disk'' None False ?a)
     = [Ev_Now, Ev_Exec ''/bin/alert'' [''false'', ''disk''],
        Ev_Stderr ''<3>/bin/alert failed\<newline>exit status 2\<newline>'']"
    by simp
  from ra ru rw rd rf show ?thesis by blast
qed

subsection \<open>A pattern that does not compile\<close>

lemma carries_append: "carries t (pre @ t @ post)"
proof (induction pre)
  case Nil
  show ?case
  proof (cases "t @ post")
    case Nil
    then show ?thesis by simp
  next
    case (Cons a list)
    then have "take (length t) (a # list) = t" by (metis append_eq_conv_conj)
    with Cons show ?thesis by simp
  qed
next
  case (Cons a pre)
  then show ?case by simp
qed

lemma fetch_bad_pattern:
  assumes "match \<noteq> []" and "regexp_Compile e match = Some cerr"
  shows "fst (fetch e url match code s) \<noteq> None"
  using assms
  by (auto simp: fetch_def split: option.splits prod.splits sum.splits)

lemma shell_attempts_bad_pattern:
  assumes "Match c \<noteq> []" and "regexp_Compile e (Match c) = Some cerr"
  shows "i < Tries c \<or> err \<noteq> None \<Longrightarrow> fst (snd (shell_attempts e c sl i out err s)) \<noteq> None"
  using assms
proof (induction e c sl i out err s rule: shell_attempts.induct)
  case (1 e check sleep i out err s)
  show ?case
  proof (cases "i < Tries check")
    case False
    with "1.prems" show ?thesis by (simp add: shell_attempts.simps[of e check sleep i out err s])
  next
    case True
    obtain o1 e1 where c: "CombinedOutput e (clock s) ''sh'' [''-c'', Shell check] = (o1, e1)"
      by (cases "CombinedOutput e (clock s) ''sh'' [''-c'', Shell check]") auto
    let ?s1 = "emit (Ev_Exec ''sh'' [''-c'', Shell check]) s"
    have ex: "exec_CombinedOutput e ''sh'' [''-c'', Shell check] s = (o1, e1, ?s1)"
      by (simp add: exec_CombinedOutput_def c)
    show ?thesis
    proof (cases e1)
      case None
      with True ex "1.prems" show ?thesis
        by (simp add: shell_attempts.simps[of e check sleep i out err s])
    next
      case (Some a)
      have "fst (snd (shell_attempts e check sleep (i + 1) o1 e1
          (if i + 1 < Tries check then time_Sleep sleep ?s1 else ?s1))) \<noteq> None"
        using "1.IH"[OF True ex[symmetric] refl Some] Some "1.prems"(2,3) by blast
      with True ex Some show ?thesis
        by (simp add: shell_attempts.simps[of e check sleep i out err s])
    qed
  qed
qed

lemma web_attempts_bad_pattern:
  assumes "Match c \<noteq> []" and "regexp_Compile e (Match c) = Some cerr"
  shows "i < Tries c \<or> err \<noteq> None \<Longrightarrow> fst (web_attempts e c sl i err s) \<noteq> None"
  using assms
proof (induction e c sl i err s rule: web_attempts.induct)
  case (1 e check sleep i err s)
  show ?case
  proof (cases "i < Tries check")
    case False
    with "1.prems" show ?thesis by (simp add: web_attempts.simps[of e check sleep i err s])
  next
    case True
    obtain e1 s1 where ex: "fetch e (Web check) (Match check) (Return check) s = (e1, s1)"
      by (cases "fetch e (Web check) (Match check) (Return check) s") auto
    from fetch_bad_pattern[OF "1.prems"(2,3), of "Web check" "Return check" s] ex
    obtain a where Some: "e1 = Some a" by auto
    have "fst (web_attempts e check sleep (i + 1) e1
          (if i + 1 < Tries check then time_Sleep sleep s1 else s1)) \<noteq> None"
      using "1.IH"[OF True ex[symmetric] Some] Some "1.prems"(2,3) by blast
    with True ex Some show ?thesis
      by (simp add: web_attempts.simps[of e check sleep i err s])
  qed
qed

text \<open>
  C8, as the code has it. When the pattern of a check does not compile, every attempt
  is a failure, for the shell and for the web worker, and nothing else happens: the
  loops go on and return. The diagnostic carries the text of the compilation error
  whenever the attempt gets as far as the pattern, that is when the command exits
  with status zero (the diagnostic is then the output followed by the error text) or
  when the response has the expected status.
\<close>

theorem uncompilable_pattern_fails:
  assumes "Match c \<noteq> []" and "regexp_Compile e (Match c) = Some cerr"
  shows "fst (fetch e (Web c) (Match c) (Return c) s) \<noteq> None
     \<and> (i < Tries c \<longrightarrow>
          fst (snd (shell_attempts e c sl i out err s)) \<noteq> None
          \<and> fst (web_attempts e c sl i err s) \<noteq> None)
     \<and> (\<forall>o1. i < Tries c \<and> CombinedOutput e (clock s) ''sh'' [''-c'', Shell c] = (o1, None) \<longrightarrow>
          shell_attempts e c sl i out err s
            = (o1, Some cerr, emit (Ev_Exec ''sh'' [''-c'', Shell c]) s)
          \<and> carries cerr (o1 @ cerr))
     \<and> (\<forall>body s1. NewRequest e (Web c) = None
            \<and> client_Do e \<lparr>URL = Web c, Header = Header_Set [] ''User-Agent'' ''jsonmon''\<rparr> [] s
                = (Inr (Return c, body), s1) \<longrightarrow>
          fetch e (Web c) (Match c) (Return c) s = (Some cerr, s1) \<and> carries cerr cerr)"
proof (intro conjI impI allI)
  show "fst (fetch e (Web c) (Match c) (Return c) s) \<noteq> None"
    by (rule fetch_bad_pattern[OF assms])
next
  assume "i < Tries c"
  then show "fst (snd (shell_attempts e c sl i out err s)) \<noteq> None"
    using shell_attempts_bad_pattern[OF assms] by blast
next
  assume "i < Tries c"
  then show "fst (web_attempts e c sl i err s) \<noteq> None"
    using web_attempts_bad_pattern[OF assms] by blast
next
  fix o1
  assume "i < Tries c \<and> CombinedOutput e (clock s) ''sh'' [''-c'', Shell c] = (o1, None)"
  with assms show "shell_attempts e c sl i out err s
            = (o1, Some cerr, emit (Ev_Exec ''sh'' [''-c'', Shell c]) s)"
    by (simp add: shell_attempts.simps[of e c sl i out err s] exec_CombinedOutput_def)
  show "carries cerr (o1 @ cerr)"
    using carries_append[of cerr o1 "[]"] by simp
next
  fix body s1
  assume "NewRequest e (Web c) = None
            \<and> client_Do e \<lparr>URL = Web c, Header = Header_Set [] ''User-Agent'' ''jsonmon''\<rparr> [] s
                = (Inr (Return c, body), s1)"
  with assms show "fetch e (Web c) (Match c) (Return c) s = (Some cerr, s1)"
    by (simp add: fetch_def)
  show "carries cerr cerr"
    using carries_append[of cerr "[]" "[]"] by simp
qed

theorem uncompilable_pattern_fails_witness:
  "fst (snd (shell_attempts (bad_pattern ok_env) (echo_ok\<lparr>Match := ''('', Tries := 2\<rparr>) 0 0 [] None
       (main_start ok_env (Some []))))
     = Some ''error parsing regexp: missing closing ): `(`''
   \<and> fst (fetch (bad_pattern ok_env) ''http://localhost/'' ''('' 200 (main_start ok_env (Some [])))
     = Some ''error parsing regexp: missing closing ): `(`''"
proof -
  let ?c = "echo_ok\<lparr>Match := ''('', Tries := 2\<rparr>"
  let ?w = "web_ok\<lparr>Match := ''('', Return := 200\<rparr>"
  let ?s = "main_start ok_env (Some [])"
  let ?req = "\<lparr>URL = Web ?w, Header = Header_Set [] ''User-Agent'' ''jsonmon''\<rparr>"
  have a: "Match ?c \<noteq> []" and a': "Match ?w \<noteq> []"
    by code_simp+
  have b: "regexp_Compile (bad_pattern ok_env) (Match ?c)
      = Some ''error parsing regexp: missing closing ): `(`''"
    and b': "regexp_Compile (bad_pattern ok_env) (Match ?w)
      = Some ''error parsing regexp: missing closing ): `(`''"
    by code_simp+
  have t: "0 < Tries ?c"
    by code_simp
  have x: "CombinedOutput (bad_pattern ok_env) (clock ?s) ''sh''
      [''-c'', Shell ?c] = (''ok\<newline>'', None)"
    by code_simp
  have f: "Web ?w = ''http://localhost/''" "Match ?w = ''(''" "Return ?w = 200"
    by code_simp+
  have n: "NewRequest (bad_pattern ok_env) (Web ?w) = None"
    by code_simp
  have "fst (client_Do (bad_pattern ok_env) ?req [] ?s) = Inr (Return ?w, [])"
    by code_simp
  then have d: "client_Do (bad_pattern ok_env) ?req [] ?s
      = (Inr (Return ?w, []), snd (client_Do (bad_pattern ok_env) ?req [] ?s))"
    by (simp add: prod_eq_iff)
  note T = uncompilable_pattern_fails [OF a b, where i = 0 and s = ?s
      and sl = 0 and out = "[]" and err = None]
  note U = uncompilable_pattern_fails [OF a' b', where i = 0 and s = ?s
      and sl = 0 and out = "[]" and err = None]
  from T t x have "shell_attempts (bad_pattern ok_env) ?c 0 0 [] None ?s
      = (''ok\<newline>'', Some ''error parsing regexp: missing closing ): `(`'',
         emit (Ev_Exec ''sh'' [''-c'', Shell ?c]) ?s)"
    by blast
  then have p: "fst (snd (shell_attempts (bad_pattern ok_env) ?c 0 0 [] None ?s))
     = Some ''error parsing regexp: missing closing ): `(`''"
    by simp
  from U n d have "fetch (bad_pattern ok_env) (Web ?w) (Match ?w) (Return ?w) ?s
      = (Some ''error parsing regexp: missing closing ): `(`'',
         snd (client_Do (bad_pattern ok_env) ?req [] ?s))"
    by blast
  then have q: "fst (fetch (bad_pattern ok_env) (Web ?w) (Match ?w) (Return ?w) ?s)
      = Some ''error parsing regexp: missing closing ): `(`''"
    by simp
  from f p q show ?thesis by simp
qed

text \<open>
  The claim as it is worded, that the diagnostic of every such check carries the
  compilation error, fails when the probe itself fails: the command exits with status 1
  and the diagnostic is its output and its exit status; the pattern was never compiled.
\<close>

theorem uncompilable_pattern_counterexample:
  "regexp_Compile (bad_pattern down_env) (Match (alerting\<lparr>Match := ''(''\<rparr>))
     = Some ''error parsing regexp: missing closing ): `(`''
   \<and> shell_msg (bad_pattern down_env) 0 0
       (main_start (bad_pattern down_env) (Some [alerting\<lparr>Match := ''(''\<rparr>]))
     = Some ''boom\<newline>exit status 1''
   \<and> \<not> carries ''error parsing regexp: missing closing ): `(`'' ''boom\<newline>exit status 1''"
  by code_simp

subsection \<open>Retries\<close>

text \<open>
  The web worker pauses between attempts only: a cycle makes at most \<^verbatim>\<open>tries - 1\<close>
  pauses, and exactly that many when it ends in failure.
\<close>

lemma fetch_no_sleep:
  "fetch e url match code s = (err, s') \<Longrightarrow> count_ev is_sleep s' = count_ev is_sleep s"
proof -
  assume "fetch e url match code s = (err, s')"
  from fetch_frame[OF this] have "adds is_probe s s'" by simp
  then show ?thesis by (rule adds_count) (auto elim: is_probe.elims)
qed

lemma web_attempts_sleeps:
  "web_attempts e c sl i err s = (err', s') \<Longrightarrow> i < Tries c \<Longrightarrow>
     count_ev is_sleep s' \<le> count_ev is_sleep s + nat (Tries c - i - 1)
     \<and> (err' \<noteq> None \<longrightarrow> count_ev is_sleep s' = count_ev is_sleep s + nat (Tries c - i - 1))"
proof (induction e c sl i err s arbitrary: err' s' rule: web_attempts.induct)
  case (1 e check sleep i err s)
  note lt = "1.prems"(2)
  obtain e1 s1 where ex: "fetch e (Web check) (Match check) (Return check) s = (e1, s1)"
    by (cases "fetch e (Web check) (Match check) (Return check) s") auto
  from fetch_no_sleep[OF ex] have c1: "count_ev is_sleep s1 = count_ev is_sleep s" .
  show ?case
  proof (cases e1)
    case None
    with "1.prems" ex have "s' = s1" "err' = None"
      by (simp_all add: web_attempts.simps[of e check sleep i err s])
    with c1 show ?thesis by simp
  next
    case (Some a)
    let ?s2 = "if i + 1 < Tries check then time_Sleep sleep s1 else s1"
    from "1.prems" ex Some have rec: "web_attempts e check sleep (i + 1) e1 ?s2 = (err', s')"
      by (simp add: web_attempts.simps[of e check sleep i err s])
    show ?thesis
    proof (cases "i + 1 < Tries check")
      case True
      from "1.IH"[OF lt ex[symmetric] Some rec True] True c1 show ?thesis
        by (auto simp: time_Sleep_def)
    next
      case False
      with rec have "s' = s1" "err' = e1"
        by (simp_all add: web_attempts.simps[of e check sleep "i + 1" e1])
      with c1 False lt show ?thesis by simp
    qed
  qed
qed

text \<open>
  C1 does not hold for the shell worker. With \<^verbatim>\<open>tries: 3\<close> and a pattern, a command
  that exits with status zero but whose output does not match ends the cycle at once:
  the cycle fails after one attempt, without a pause and without a second attempt,
  because \<^verbatim>\<open>break\<close> follows the pattern check whatever its result. The web worker, on
  the same answers, makes its three attempts with two pauses of five seconds.
\<close>

theorem shell_mismatch_not_retried:
  "Tries (checks two_expecting ! 0) = 3
   \<and> shell_verdict mismatch_env 0 (seconds 5) two_expecting
   \<and> new_events two_expecting (shell_probed mismatch_env 0 (seconds 5) two_expecting)
       = [Ev_Exec ''sh'' [''-c'', ''echo no'']]
   \<and> Tries (checks two_expecting ! 1) = 3
   \<and> web_verdict mismatch_env 1 (seconds 5) two_expecting
   \<and> new_events two_expecting (web_probed mismatch_env 1 (seconds 5) two_expecting)
       = [Ev_RoundTrip (GET ''http://localhost/''), Ev_Sleep 5000000000,
          Ev_RoundTrip (GET ''http://localhost/''), Ev_Sleep 5000000000,
          Ev_RoundTrip (GET ''http://localhost/'')]"
  by code_simp

subsection \<open>Redirects\<close>

lemma redirect_limit:
  "fst (redirect req via) = (if 10 \<le> length via then Some ''stopped after 10 redirects'' else None)"
  by (simp add: redirect_def)

text \<open>One \<^verbatim>\<open>Client.Do\<close> makes at most ten round trips, so \<^verbatim>\<open>fetch\<close> always returns.\<close>

lemma client_Do_round_trips:
  "client_Do e req via s = (r, s') \<Longrightarrow>
     count_ev is_probe s' \<le> count_ev is_probe s + (10 - length via)"
proof (induction e req via s arbitrary: r s' rule: client_Do.induct)
  case (1 e req via s)
  obtain err req1 where pol: "(if via = [] then (None, req) else redirect req via) = (err, req1)"
    by (cases "if via = [] then (None, req) else redirect req via") auto
  show ?case
  proof (cases err)
    case (Some a)
    with "1.prems" pol have "s' = s" by (simp add: client_Do.simps[of e req via s])
    then show ?thesis by simp
  next
    case None
    with pol have lt: "length via < 10" by (auto simp: redirect_def split: if_splits)
    let ?s1 = "emit (Ev_RoundTrip req1) s"
    show ?thesis
    proof (cases "RoundTrip e (clock s) req1")
      case (Response code body)
      with "1.prems" pol None have "s' = ?s1" by (simp add: client_Do.simps[of e req via s])
      with lt show ?thesis by simp
    next
      case (Transport_error m)
      with "1.prems" pol None have "s' = ?s1" by (simp add: client_Do.simps[of e req via s])
      with lt show ?thesis by simp
    next
      case (Redirect loc)
      with "1.prems" pol None
      have rec: "client_Do e \<lparr>URL = loc, Header = []\<rparr> (via @ [req1]) ?s1 = (r, s')"
        by (simp add: client_Do.simps[of e req via s])
      from "1.IH"[OF pol[symmetric] None Redirect rec] lt show ?thesis by simp
    qed
  qed
qed

text \<open>
  C7 does not hold. The policy refuses a redirect as soon as ten requests have been
  made, the original one among them, so nine redirects are followed and the tenth
  fails: a chain of ten redirects ends in the error after ten round trips, a chain of
  nine is followed to its end.
\<close>

theorem redirect_limit_off_by_one:
  "fst (fetch (redirects_env 10) ''/'' [] 200 (main_start ok_env (Some [])))
     = Some ''Get ///////////: stopped after 10 redirects''
   \<and> count_ev is_probe (snd (fetch (redirects_env 10) ''/'' [] 200 (main_start ok_env (Some [])))) = 10
   \<and> fst (fetch (redirects_env 9) ''/'' [] 200 (main_start ok_env (Some []))) = None
   \<and> count_ev is_probe (snd (fetch (redirects_env 9) ''/'' [] 200 (main_start ok_env (Some [])))) = 10"
  by code_simp

end
